theory Spec2Isabelle
  imports Main "HOL-Library.Char_ord" "HOL-Library.List_Lexorder"
    "HOL-Library.Product_Lexorder" "HOL-Library.Multiset"
begin

section \<open>Cursor pagination for Lucid query builders: data model\<close>

text \<open>
  The development follows \<^verbatim>\<open>cursor_paginator.ts\<close> (class \<^verbatim>\<open>CursorPaginator\<close>) and
  \<^verbatim>\<open>types.ts\<close>.  JavaScript values that the paginator handles are modelled as follows.

  \<^item> A row returned by the store is a list of named fields, named as the columns of
    the query are; \<^verbatim>\<open>item[column]\<close> is \<open>map_of item column\<close>, with \<open>None\<close> for
    \<^verbatim>\<open>undefined\<close>.
  \<^item> Field values are the scalars a store returns.  Numbers are the integers; a
    timestamp carries the ISO-8601 text that its \<^verbatim>\<open>toJSON\<close> method yields.
  \<^item> \<open>json\<close> is what \<^verbatim>\<open>JSON.parse\<close> returns.
\<close>

datatype direction = Asc | Desc

record OrderByClause =
  column :: string
  direction :: direction

datatype field_value = VNull | VBool bool | VNum int | VStr string | VDate string

type_synonym row = "(string \<times> field_value) list"

datatype json = JNull | JBool bool | JNum int | JStr string
  | JArr "json list" | JObj "(string \<times> json) list"

datatype js_error = SyntaxError | TypeError | StoreFailure

subsection \<open>JavaScript objects used as ordered maps (\<^verbatim>\<open>TColumns\<close>)\<close>

text \<open>
  A JavaScript object is kept as the list of its properties in creation order.
  \<^verbatim>\<open>Object.keys\<close> and \<^verbatim>\<open>Object.values\<close> enumerate the properties whose
  name is an array index (a canonical decimal numeral below \<open>2^32 - 1\<close>) first, in
  ascending numeric order, and then the remaining properties in creation order.
\<close>

type_synonym TColumns = "(string \<times> direction) list"

definition is_digit :: "char \<Rightarrow> bool" where
  "is_digit c = (48 \<le> (of_char c :: nat) \<and> (of_char c :: nat) \<le> 57)"

definition index_value :: "string \<Rightarrow> int" where
  "index_value s = foldl (\<lambda>n c. 10 * n + (of_char c - 48)) 0 s"

definition is_array_index :: "string \<Rightarrow> bool" where
  "is_array_index s =
     (s \<noteq> [] \<and> list_all is_digit s \<and> (s = ''0'' \<or> hd s \<noteq> CHR ''0'')
      \<and> index_value s < 4294967295)"

definition own_entries :: "(string \<times> 'a) list \<Rightarrow> (string \<times> 'a) list" where
  "own_entries obj =
     sort_key (\<lambda>e. index_value (fst e)) (filter (\<lambda>e. is_array_index (fst e)) obj)
     @ filter (\<lambda>e. \<not> is_array_index (fst e)) obj"

definition object_keys :: "(string \<times> 'a) list \<Rightarrow> string list" where
  "object_keys obj = map fst (own_entries obj)"

definition object_values :: "(string \<times> 'a) list \<Rightarrow> 'a list" where
  "object_values obj = map snd (own_entries obj)"

text \<open>\<^verbatim>\<open>obj[k] = v\<close>: an existing property keeps its place, a new one is added last.\<close>

fun obj_set :: "(string \<times> 'a) list \<Rightarrow> string \<Rightarrow> 'a \<Rightarrow> (string \<times> 'a) list" where
  "obj_set [] k v = [(k, v)]"
| "obj_set (e # es) k v = (if fst e = k then (k, v) # es else e # obj_set es k v)"

text \<open>\<^verbatim>\<open>delete obj[k]\<close>.\<close>

definition obj_delete :: "(string \<times> 'a) list \<Rightarrow> string \<Rightarrow> (string \<times> 'a) list" where
  "obj_delete obj k = filter (\<lambda>e. fst e \<noteq> k) obj"

text \<open>\<^verbatim>\<open>xs[0]\<close> on an array: \<^verbatim>\<open>undefined\<close> when the array is empty.\<close>

definition first_elem :: "'a list \<Rightarrow> 'a option" where
  "first_elem xs = (case xs of [] \<Rightarrow> None | x # _ \<Rightarrow> Some x)"

text \<open>JavaScript truthiness of a parsed JSON value.\<close>

fun js_truthy :: "json \<Rightarrow> bool" where
  "js_truthy JNull = False"
| "js_truthy (JBool b) = b"
| "js_truthy (JNum n) = (n \<noteq> 0)"
| "js_truthy (JStr s) = (s \<noteq> [])"
| "js_truthy (JArr xs) = True"
| "js_truthy (JObj kvs) = True"

text \<open>Property read \<^verbatim>\<open>v.name\<close> on a parsed JSON value; \<open>None\<close> is \<^verbatim>\<open>undefined\<close>.
  Only objects carry the properties \<^verbatim>\<open>data\<close> and \<^verbatim>\<open>point_to_next\<close>.\<close>

fun js_prop :: "json \<Rightarrow> string \<Rightarrow> json option" where
  "js_prop (JObj kvs) name = map_of kvs name"
| "js_prop _ name = None"

subsection \<open>Cursor strings\<close>

text \<open>
  The paginator observes a cursor string in two ways only: its truthiness (the empty
  string is falsy) and the result of
  \<^verbatim>\<open>JSON.parse(Buffer.from(cursor, 'base64').toString('utf-8'))\<close>, which either throws a
  \<^verbatim>\<open>SyntaxError\<close> or returns a JSON value.  It produces cursor strings only as
  \<^verbatim>\<open>Buffer.from(JSON.stringify(v)).toString('base64')\<close>.  A cursor string is therefore
  represented by what these two observations yield: \<open>Base64Json j\<close> stands for a
  (non-empty) base64 text of a JSON document denoting \<open>j\<close>, \<open>NotJson\<close> for a non-empty
  string whose decoded bytes are not a JSON document.
\<close>

datatype cursor_string = EmptyString | NotJson | Base64Json json

text \<open>The argument \<^verbatim>\<open>cursor?: string | null\<close>; \<open>None\<close> is \<^verbatim>\<open>undefined\<close> or \<^verbatim>\<open>null\<close>.\<close>

definition cursor_truthy :: "cursor_string option \<Rightarrow> bool" where
  "cursor_truthy c = (case c of None \<Rightarrow> False | Some EmptyString \<Rightarrow> False | Some _ \<Rightarrow> True)"

text \<open>Line 134: \<^verbatim>\<open>JSON.parse(Buffer.from(cursor, 'base64').toString('utf-8'))\<close>.\<close>

fun decodeCursor :: "cursor_string \<Rightarrow> js_error + json" where
  "decodeCursor EmptyString = Inl SyntaxError"
| "decodeCursor NotJson = Inl SyntaxError"
| "decodeCursor (Base64Json j) = Inr j"

text \<open>\<^verbatim>\<open>JSON.stringify\<close> of an array element: \<^verbatim>\<open>undefined\<close> becomes \<^verbatim>\<open>null\<close>, a
  timestamp becomes the string its \<^verbatim>\<open>toJSON\<close> returns.\<close>

fun to_json :: "field_value option \<Rightarrow> json" where
  "to_json None = JNull"
| "to_json (Some VNull) = JNull"
| "to_json (Some (VBool b)) = JBool b"
| "to_json (Some (VNum n)) = JNum n"
| "to_json (Some (VStr s)) = JStr s"
| "to_json (Some (VDate t)) = JStr t"

text \<open>\<^verbatim>\<open>genCursor(columns, item, pointToNext)\<close>.  When \<open>item\<close> is \<^verbatim>\<open>undefined\<close>, reading
  \<^verbatim>\<open>item[column]\<close> for the first column throws a \<^verbatim>\<open>TypeError\<close>.\<close>

definition cursor_json :: "json list \<Rightarrow> bool \<Rightarrow> json" where
  "cursor_json vals pointToNext =
     JObj [(''data'', JArr vals), (''point_to_next'', JBool pointToNext)]"

definition genCursor :: "TColumns \<Rightarrow> row option \<Rightarrow> bool \<Rightarrow> js_error + cursor_string" where
  "genCursor columns item pointToNext =
     (case item of
        None \<Rightarrow>
          (if object_keys columns = [] then Inr (Base64Json (cursor_json [] pointToNext))
           else Inl TypeError)
      | Some r \<Rightarrow>
          Inr (Base64Json (cursor_json
                 (map (\<lambda>c. to_json (map_of r c)) (object_keys columns)) pointToNext)))"

section \<open>The query builder and the row source\<close>

text \<open>
  The paginator is installed as a method of Lucid's query builders and drives the
  underlying Knex builder.  Of a builder the paginator reads and writes the statement
  list \<^verbatim>\<open>knexQuery._statements\<close> and the limit.  A \<^verbatim>\<open>where\<close> statement records how it
  is joined to its predecessor (\<^verbatim>\<open>bool\<close>: \<^verbatim>\<open>and\<close> / \<^verbatim>\<open>or\<close>); \<^verbatim>\<open>where(callback)\<close> adds
  a parenthesised group holding the statements the callback issues.  Order
  statements are of type \<^verbatim>\<open>orderByBasic\<close> (column and direction, the direction already
  in lower case) or of another type of the grouping \<^verbatim>\<open>order\<close> (for instance raw).
\<close>

datatype cmp_op = OpLt | OpGt | OpEq

datatype bool_kind = BAnd | BOr

datatype clause =
    Basic "string option" cmp_op "json option"
  | Wrapped "(bool_kind \<times> clause) list"

datatype statement =
    SWhere bool_kind clause
  | SOrderBasic string direction
  | SOrderRaw string

record builder =
  statements :: "statement list"
  limit_val :: "int option"

definition qb_where_wrapped :: "builder \<Rightarrow> (bool_kind \<times> clause) list \<Rightarrow> builder" where
  "qb_where_wrapped q g = q\<lparr>statements := statements q @ [SWhere BAnd (Wrapped g)]\<rparr>"

definition qb_orderBy :: "builder \<Rightarrow> string \<Rightarrow> direction \<Rightarrow> builder" where
  "qb_orderBy q c d = q\<lparr>statements := statements q @ [SOrderBasic c d]\<rparr>"

definition qb_limit :: "builder \<Rightarrow> int \<Rightarrow> builder" where
  "qb_limit q n = q\<lparr>limit_val := Some n\<rparr>"

fun is_order :: "statement \<Rightarrow> bool" where
  "is_order (SWhere b c) = False"
| "is_order (SOrderBasic c d) = True"
| "is_order (SOrderRaw s) = True"

fun order_clause_of :: "statement \<Rightarrow> OrderByClause option" where
  "order_clause_of (SOrderBasic c d) = Some \<lparr>column = c, direction = d\<rparr>"
| "order_clause_of _ = None"

fun where_of :: "statement \<Rightarrow> (bool_kind \<times> clause) option" where
  "where_of (SWhere b c) = Some (b, c)"
| "where_of _ = None"

definition where_stmts :: "builder \<Rightarrow> (bool_kind \<times> clause) list" where
  "where_stmts q = List.map_filter where_of (statements q)"

subsection \<open>Reference row source: a table answering a query as an SQL store does\<close>

text \<open>
  Comparison of a stored field with a bound parameter.  A comparison with \<^verbatim>\<open>NULL\<close> (or
  with a missing field or parameter) is unknown; as the filters below use no negation,
  unknown is rendered as \<open>False\<close>.  A timestamp column is compared with the ISO text
  of the parameter.
\<close>

fun cmp_by :: "cmp_op \<Rightarrow> 'a::linorder \<Rightarrow> 'a \<Rightarrow> bool" where
  "cmp_by OpLt a b = (a < b)"
| "cmp_by OpGt a b = (b < a)"
| "cmp_by OpEq a b = (a = b)"

fun sql_cmp :: "cmp_op \<Rightarrow> field_value \<Rightarrow> json \<Rightarrow> bool" where
  "sql_cmp op (VNum a) (JNum b) = cmp_by op a b"
| "sql_cmp op (VStr a) (JStr b) = cmp_by op a b"
| "sql_cmp op (VDate a) (JStr b) = cmp_by op a b"
| "sql_cmp op (VBool a) (JBool b) = cmp_by op a b"
| "sql_cmp op _ _ = False"

definition holds_basic :: "row \<Rightarrow> string option \<Rightarrow> cmp_op \<Rightarrow> json option \<Rightarrow> bool" where
  "holds_basic r col op val =
     (case (col, val) of
        (Some c, Some j) \<Rightarrow> (case map_of r c of Some v \<Rightarrow> sql_cmp op v j | None \<Rightarrow> False)
      | _ \<Rightarrow> False)"

text \<open>
  A statement list is rendered as \<^verbatim>\<open>s1 bool2 s2 bool3 s3 ...\<close> (the \<^verbatim>\<open>bool\<close> of the
  first statement is dropped), and SQL gives \<^verbatim>\<open>AND\<close> precedence over \<^verbatim>\<open>OR\<close>.
  \<open>holds_chain r acc ss\<close> evaluates the rest \<open>ss\<close> of such a list, \<open>acc\<close> being the
  value of the conjunction in progress.
\<close>

fun holds :: "row \<Rightarrow> clause \<Rightarrow> bool"
  and holds_chain :: "row \<Rightarrow> bool \<Rightarrow> (bool_kind \<times> clause) list \<Rightarrow> bool" where
  "holds r (Basic col op val) = holds_basic r col op val"
| "holds r (Wrapped []) = True"
| "holds r (Wrapped (s # ss)) = holds_chain r (holds r (snd s)) ss"
| "holds_chain r acc [] = acc"
| "holds_chain r acc (s # ss) =
     (if fst s = BAnd then holds_chain r (acc \<and> holds r (snd s)) ss
      else acc \<or> holds_chain r (holds r (snd s)) ss)"

definition matches :: "builder \<Rightarrow> row \<Rightarrow> bool" where
  "matches q r = holds r (Wrapped (where_stmts q))"

text \<open>
  \<^verbatim>\<open>ORDER BY\<close>: values are ordered within their type, \<^verbatim>\<open>NULL\<close> first; rows are compared
  column by column, and the sort is stable with respect to the table.  Only basic
  order statements reach the store.  \<^verbatim>\<open>LIMIT n\<close> keeps the first \<open>n\<close> rows; a negative
  limit is rejected.
\<close>

fun val_key :: "field_value option \<Rightarrow> nat \<times> int \<times> string" where
  "val_key None = (0, 0, [])"
| "val_key (Some VNull) = (0, 0, [])"
| "val_key (Some (VBool b)) = (1, (if b then 1 else 0), [])"
| "val_key (Some (VNum n)) = (2, n, [])"
| "val_key (Some (VStr s)) = (3, 0, s)"
| "val_key (Some (VDate t)) = (4, 0, t)"

definition dir_less :: "direction \<Rightarrow> field_value option \<Rightarrow> field_value option \<Rightarrow> bool" where
  "dir_less d a b = (if d = Asc then val_key a < val_key b else val_key b < val_key a)"

fun row_le :: "OrderByClause list \<Rightarrow> row \<Rightarrow> row \<Rightarrow> bool" where
  "row_le [] r s = True"
| "row_le (c # cs) r s =
     (if dir_less (direction c) (map_of r (column c)) (map_of s (column c)) then True
      else if dir_less (direction c) (map_of s (column c)) (map_of r (column c)) then False
      else row_le cs r s)"

fun insert_row :: "OrderByClause list \<Rightarrow> row \<Rightarrow> row list \<Rightarrow> row list" where
  "insert_row ob r [] = [r]"
| "insert_row ob r (s # ss) = (if row_le ob r s then r # s # ss else s # insert_row ob r ss)"

definition sort_rows :: "OrderByClause list \<Rightarrow> row list \<Rightarrow> row list" where
  "sort_rows ob rs = foldr (insert_row ob) rs []"

definition run_query :: "row list \<Rightarrow> builder \<Rightarrow> js_error + row list" where
  "run_query table q =
     (let rows = sort_rows (List.map_filter order_clause_of (statements q))
                   (filter (matches q) table)
      in case limit_val q of
           None \<Rightarrow> Inr rows
         | Some n \<Rightarrow> if n < 0 then Inl StoreFailure else Inr (take (nat n) rows))"

section \<open>The paginator\<close>

record CursorPaginator =
  items :: "row list"
  nextCursor :: "cursor_string option"
  prevCursor :: "cursor_string option"

text \<open>\<^verbatim>\<open>extractOrderByClauses\<close>.\<close>

definition extractOrderByClauses :: "builder \<Rightarrow> OrderByClause list" where
  "extractOrderByClauses query = List.map_filter order_clause_of (statements query)"

text \<open>\<^verbatim>\<open>convertOrderByToColumns\<close>: a \<^verbatim>\<open>reduce\<close> that assigns \<^verbatim>\<open>acc[clause.column]\<close>.\<close>

definition convertOrderByToColumns :: "OrderByClause list \<Rightarrow> TColumns" where
  "convertOrderByToColumns orderByClauses =
     foldl (\<lambda>acc clause. obj_set acc (column clause) (direction clause)) [] orderByClauses"

text \<open>
  The callback of \<^verbatim>\<open>applyCursorConditions\<close>, run on \<^verbatim>\<open>cursor.data\<close> being the array
  \<open>data\<close>: it takes the first column and direction of \<open>columns\<close>, shifts the first value
  off \<open>data\<close>, issues the strict comparison, deletes the column and, if values remain,
  issues \<^verbatim>\<open>orWhere(column, '=', value)\<close> and a nested \<^verbatim>\<open>where(callback)\<close>.
  Knex runs the callback when it compiles the statement; the callback touches only
  \<open>columns\<close> and \<^verbatim>\<open>cursor.data\<close>, which the paginator does not read afterwards, so the
  group is built here at the call.
\<close>

definition strict_op :: "bool \<Rightarrow> direction option \<Rightarrow> cmp_op" where
  "strict_op point_to_next dir =
     (if point_to_next then (if dir = Some Asc then OpGt else OpLt)
      else (if dir = Some Asc then OpLt else OpGt))"

definition delete_column :: "TColumns \<Rightarrow> string option \<Rightarrow> TColumns" where
  "delete_column columns col =
     obj_delete columns (case col of Some c \<Rightarrow> c | None \<Rightarrow> ''undefined'')"

fun cursor_conditions :: "TColumns \<Rightarrow> json list \<Rightarrow> bool \<Rightarrow> (bool_kind \<times> clause) list" where
  "cursor_conditions columns [] ptn =
     [(BAnd, Basic (first_elem (object_keys columns))
               (strict_op ptn (first_elem (object_values columns))) None)]"
| "cursor_conditions columns [v] ptn =
     [(BAnd, Basic (first_elem (object_keys columns))
               (strict_op ptn (first_elem (object_values columns))) (Some v))]"
| "cursor_conditions columns (v # w # ws) ptn =
     (let col = first_elem (object_keys columns);
          dir = first_elem (object_values columns)
      in [(BAnd, Basic col (strict_op ptn dir) (Some v)),
          (BOr, Basic col OpEq (Some v)),
          (BAnd, Wrapped (cursor_conditions (delete_column columns col) (w # ws) ptn))])"

definition prop_truthy :: "json \<Rightarrow> string \<Rightarrow> bool" where
  "prop_truthy v name = (case js_prop v name of Some x \<Rightarrow> js_truthy x | None \<Rightarrow> False)"

text \<open>\<^verbatim>\<open>applyCursorConditions\<close>: \<^verbatim>\<open>cursor.data.shift()\<close> throws a \<^verbatim>\<open>TypeError\<close> unless
  \<^verbatim>\<open>cursor.data\<close> is an array.\<close>

definition applyCursorConditions :: "builder \<Rightarrow> TColumns \<Rightarrow> json \<Rightarrow> js_error + builder" where
  "applyCursorConditions query columns cursor =
     (case js_prop cursor ''data'' of
        Some (JArr data) \<Rightarrow>
          Inr (qb_where_wrapped query
                 (cursor_conditions columns data (prop_truthy cursor ''point_to_next'')))
      | _ \<Rightarrow> Inl TypeError)"

text \<open>\<^verbatim>\<open>clearOrderByStatements\<close>.\<close>

definition clearOrderByStatements :: "builder \<Rightarrow> builder" where
  "clearOrderByStatements query =
     query\<lparr>statements := filter (\<lambda>s. \<not> is_order s) (statements query)\<rparr>"

text \<open>\<^verbatim>\<open>applyOrderBy\<close>.\<close>

definition applyOrderBy :: "builder \<Rightarrow> OrderByClause list \<Rightarrow> bool \<Rightarrow> builder" where
  "applyOrderBy query orderByClauses reverse =
     foldl (\<lambda>q clause. qb_orderBy q (column clause)
              (if reverse then (if direction clause = Asc then Desc else Asc)
               else direction clause))
       query orderByClauses"

text \<open>\<^verbatim>\<open>items[items.length - 1]\<close>.\<close>

definition last_elem :: "'a list \<Rightarrow> 'a option" where
  "last_elem xs = (if xs = [] then None else Some (last xs))"

text \<open>Lines 124--130: the ordering of the builder, \<^verbatim>\<open>id desc\<close> when it has none.\<close>

definition default_order :: "builder \<Rightarrow> builder \<times> OrderByClause list" where
  "default_order this =
     (let orderByClauses = extractOrderByClauses this
      in if orderByClauses = []
         then (qb_orderBy this ''id'' Desc, [\<lparr>column = ''id'', direction = Desc\<rparr>])
         else (this, orderByClauses))"

text \<open>Lines 133--135: \<^verbatim>\<open>cursor ? JSON.parse(...) : null\<close>.\<close>

definition read_cursor :: "cursor_string option \<Rightarrow> js_error + json" where
  "read_cursor cursor =
     (case cursor of
        None \<Rightarrow> Inr JNull
      | Some c \<Rightarrow> if cursor_truthy cursor then decodeCursor c else Inr JNull)"

text \<open>Lines 154--201: the page assembled from the fetched rows.  \<open>has_cursor\<close> is the
  truthiness of \<^verbatim>\<open>cursor\<close>; \<open>cursorData\<close> stands for its shallow clone, of which only
  \<^verbatim>\<open>point_to_next\<close> is read.\<close>

definition assemble_page ::
  "TColumns \<Rightarrow> int \<Rightarrow> bool \<Rightarrow> json \<Rightarrow> row list \<Rightarrow> js_error + CursorPaginator" where
  "assemble_page clonedColumns limit has_cursor cursorData fetched =
     (let cloned = js_truthy cursorData;
          ptn = (cloned \<and> prop_truthy cursorData ''point_to_next'')
      in if fetched = [] then Inr \<lparr>items = [], nextCursor = None, prevCursor = None\<rparr>
         else if int (length fetched) \<le> limit then
           (if \<not> has_cursor then
              Inr \<lparr>items = fetched, nextCursor = None, prevCursor = None\<rparr>
            else if ptn then
              (case genCursor clonedColumns (first_elem fetched) False of
                 Inl e \<Rightarrow> Inl e
               | Inr p \<Rightarrow> Inr \<lparr>items = fetched, nextCursor = None, prevCursor = Some p\<rparr>)
            else if cloned \<and> \<not> ptn then
              (let its = rev fetched
               in case genCursor clonedColumns (last_elem its) True of
                    Inl e \<Rightarrow> Inl e
                  | Inr n \<Rightarrow> Inr \<lparr>items = its, nextCursor = Some n, prevCursor = None\<rparr>)
            else Inr \<lparr>items = fetched, nextCursor = None, prevCursor = None\<rparr>)
         else
           (let popped = butlast fetched;
                its = (if has_cursor \<and> cloned \<and> \<not> ptn then rev popped else popped)
            in case genCursor clonedColumns (last_elem its) True of
                 Inl e \<Rightarrow> Inl e
               | Inr nextCursorStr \<Rightarrow>
                   if \<not> has_cursor then
                     Inr \<lparr>items = its, nextCursor = Some nextCursorStr, prevCursor = None\<rparr>
                   else
                     (case genCursor clonedColumns (first_elem its) False of
                        Inl e \<Rightarrow> Inl e
                      | Inr p \<Rightarrow>
                          Inr \<lparr>items = its, nextCursor = Some nextCursorStr,
                               prevCursor = Some p\<rparr>)))"

text \<open>
  The function returned by \<^verbatim>\<open>createPaginateFunction\<close>, installed as \<^verbatim>\<open>cursorPaginate\<close>.
  \<open>fetch\<close> is the execution of the builder by the store.  The result is the page or
  the exception thrown, together with the builder \<^verbatim>\<open>this\<close> as the call leaves it.
\<close>

definition cursorPaginate ::
  "(builder \<Rightarrow> js_error + row list) \<Rightarrow> builder \<Rightarrow> int \<Rightarrow> cursor_string option
     \<Rightarrow> (js_error + CursorPaginator) \<times> builder" where
  "cursorPaginate fetch this limit cursor =
     (let (q1, orderByClauses) = default_order this;
          columns = convertOrderByToColumns orderByClauses
      in case read_cursor cursor of
           Inl e \<Rightarrow> (Inl e, q1)
         | Inr cursorData \<Rightarrow>
             (let clonedColumns = columns;
                  has_cursor = cursor_truthy cursor
              in case (if has_cursor \<and> js_truthy cursorData
                       then applyCursorConditions q1 columns cursorData else Inr q1) of
                   Inl e \<Rightarrow> (Inl e, q1)
                 | Inr q2 \<Rightarrow>
                     (let q3 = clearOrderByStatements q2;
                          shouldReverse = (has_cursor \<and> js_truthy cursorData
                                            \<and> \<not> prop_truthy cursorData ''point_to_next'');
                          q4 = applyOrderBy q3 orderByClauses shouldReverse;
                          q5 = qb_limit q4 (limit + 1)
                      in case fetch q5 of
                           Inl e \<Rightarrow> (Inl e, q5)
                         | Inr fetched \<Rightarrow>
                             (assemble_page clonedColumns limit has_cursor cursorData fetched,
                              q5))))"

section \<open>Notions used to state the properties\<close>

text \<open>
  Column names that are pairwise distinct and none of which is an array index: for
  these the object built by \<open>convertOrderByToColumns\<close> lists the columns in the order
  of the clauses.
\<close>

definition plain_columns :: "OrderByClause list \<Rightarrow> bool" where
  "plain_columns spec =
     (distinct (map column spec) \<and> list_all (\<lambda>c. \<not> is_array_index (column c)) spec)"



text \<open>
  The boundary predicate as the specification words it (section 4.2): for the column
  at hand the strict inequality given by its direction (flipped when going backward),
  or equality at this column and the same rule for the remaining columns; for the
  last column only the strict inequality.
\<close>

definition strict_side :: "OrderByClause \<Rightarrow> json \<Rightarrow> bool \<Rightarrow> row \<Rightarrow> bool" where
  "strict_side c v pointsToNext r =
     (if pointsToNext
      then (if direction c = Asc then holds_basic r (Some (column c)) OpGt (Some v)
            else holds_basic r (Some (column c)) OpLt (Some v))
      else (if direction c = Asc then holds_basic r (Some (column c)) OpLt (Some v)
            else holds_basic r (Some (column c)) OpGt (Some v)))"

fun boundary_pred :: "OrderByClause list \<Rightarrow> json list \<Rightarrow> bool \<Rightarrow> row \<Rightarrow> bool" where
  "boundary_pred [] vs pointsToNext r = False"
| "boundary_pred (c # cs) [] pointsToNext r = False"
| "boundary_pred [c] (v # vs) pointsToNext r = strict_side c v pointsToNext r"
| "boundary_pred (c # c' # cs) (v # vs) pointsToNext r =
     (strict_side c v pointsToNext r
      \<or> (holds_basic r (Some (column c)) OpEq (Some v)
          \<and> boundary_pred (c' # cs) vs pointsToNext r))"

definition columns_of :: "OrderByClause list \<Rightarrow> TColumns" where
  "columns_of spec = map (\<lambda>c. (column c, direction c)) spec"


text \<open>Strictly before in the ordering, and the ordering with every direction inverted.\<close>

definition row_less :: "OrderByClause list \<Rightarrow> row \<Rightarrow> row \<Rightarrow> bool" where
  "row_less ob r s = (row_le ob r s \<and> \<not> row_le ob s r)"

definition flip_clause :: "OrderByClause \<Rightarrow> OrderByClause" where
  "flip_clause c = \<lparr>column = column c, direction = (if direction c = Asc then Desc else Asc)\<rparr>"

text \<open>
  The values a cursor carries for a row, the cursor string \<open>genCursor\<close> builds from
  them, and what makes two rows comparable on the ordering columns: at every column
  both hold a value of the same type, not null.
\<close>

definition cursor_values :: "OrderByClause list \<Rightarrow> row \<Rightarrow> json list" where
  "cursor_values ob r = map (\<lambda>c. to_json (map_of r (column c))) ob"

definition cursor_for :: "OrderByClause list \<Rightarrow> row \<Rightarrow> bool \<Rightarrow> cursor_string" where
  "cursor_for ob r pointsToNext = Base64Json (cursor_json (cursor_values ob r) pointsToNext)"

definition key_of :: "OrderByClause list \<Rightarrow> row \<Rightarrow> field_value option list" where
  "key_of ob r = map (\<lambda>c. map_of r (column c)) ob"

definition type_rank :: "field_value option \<Rightarrow> nat" where
  "type_rank v = fst (val_key v)"

definition typed_like :: "OrderByClause list \<Rightarrow> row \<Rightarrow> row \<Rightarrow> bool" where
  "typed_like ob r s =
     list_all (\<lambda>c. type_rank (map_of r (column c)) = type_rank (map_of s (column c))
                   \<and> type_rank (map_of r (column c)) \<noteq> 0) ob"

text \<open>
  The ordering a call works with, the full ordered result of the caller's query, and
  the conditions under which keyset pagination is sound: plain column names, the
  caller's \<^verbatim>\<open>where\<close> statements joined by \<^verbatim>\<open>and\<close> only, rows comparable on the ordering
  columns, and no two matching rows with the same values on the ordering columns.
\<close>

definition effective_order :: "builder \<Rightarrow> OrderByClause list" where
  "effective_order q = snd (default_order q)"

definition listing :: "row list \<Rightarrow> builder \<Rightarrow> row list" where
  "listing table q = sort_rows (effective_order q) (filter (matches q) table)"

definition and_only :: "builder \<Rightarrow> bool" where
  "and_only q = list_all (\<lambda>s. fst s = BAnd) (where_stmts q)"

definition well_keyed :: "row list \<Rightarrow> builder \<Rightarrow> bool" where
  "well_keyed table q =
     (let ob = effective_order q; rows = filter (matches q) table
      in plain_columns ob \<and> and_only q
         \<and> list_all (\<lambda>r. list_all (typed_like ob r) rows) rows
         \<and> distinct (map (key_of ob) rows))"

text \<open>The builder as a call hands it to the row source: the caller's statements
  without their ordering, the cursor filter \<open>g\<close> if there is one, the ordering of the
  call (inverted if \<open>rv\<close>) and the limit plus one.\<close>

definition fetch_query :: "builder \<Rightarrow> (bool_kind \<times> clause) list option \<Rightarrow> bool \<Rightarrow> int \<Rightarrow> builder" where
  "fetch_query q g rv limit =
     qb_limit (applyOrderBy (clearOrderByStatements
        (case g of None \<Rightarrow> fst (default_order q) | Some G \<Rightarrow> qb_where_wrapped (fst (default_order q)) G))
        (effective_order q) rv) (limit + 1)"

text \<open>
  The traversal of the specification (section 8): fetch a page, and while it carries a
  \<open>nextCursor\<close> fetch the page of that cursor, concatenating the items.  \<open>page\<close> is the
  paginate call on a fresh builder of the same query; the traversal is bounded by
  \<open>fuel\<close> pages and \<open>None\<close> means that the bound was reached.
\<close>

fun forward_pages ::
  "nat \<Rightarrow> (cursor_string option \<Rightarrow> js_error + CursorPaginator) \<Rightarrow> cursor_string option
     \<Rightarrow> (js_error + row list) option" where
  "forward_pages 0 page c = None"
| "forward_pages (Suc fuel) page c =
     (case page c of
        Inl e \<Rightarrow> Some (Inl e)
      | Inr p \<Rightarrow>
          (case nextCursor p of
             None \<Rightarrow> Some (Inr (items p))
           | Some c' \<Rightarrow>
               (case forward_pages fuel page (Some c') of
                  None \<Rightarrow> None
                | Some (Inl e) \<Rightarrow> Some (Inl e)
                | Some (Inr rest) \<Rightarrow> Some (Inr (items p @ rest)))))"

text \<open>The page a call returns over the reference row source holding \<open>table\<close>, each
  call on a fresh builder \<open>q\<close>.\<close>

definition page_of ::
  "row list \<Rightarrow> builder \<Rightarrow> int \<Rightarrow> cursor_string option \<Rightarrow> js_error + CursorPaginator" where
  "page_of table q limit c = fst (cursorPaginate (run_query table) q limit c)"

text \<open>Tables and queries used as examples.\<close>

definition posts_table :: "row list" where
  "posts_table =
     [[(''id'', VNum 5), (''t'', VNum 10)],
      [(''id'', VNum 4), (''t'', VNum 10)],
      [(''id'', VNum 3), (''t'', VNum 9)]]"

definition posts_query :: builder where
  "posts_query =
     \<lparr>statements = [SOrderBasic ''t'' Desc, SOrderBasic ''id'' Desc], limit_val = None\<rparr>"

definition ids_table :: "row list" where
  "ids_table = [[(''id'', VNum 1)], [(''id'', VNum 2)], [(''id'', VNum 3)]]"

definition ids_query :: builder where
  "ids_query = \<lparr>statements = [SOrderBasic ''id'' Asc], limit_val = None\<rparr>"

definition ties_table :: "row list" where
  "ties_table =
     [[(''id'', VNum 1), (''t'', VNum 9)],
      [(''id'', VNum 2), (''t'', VNum 10)],
      [(''id'', VNum 3), (''t'', VNum 10)],
      [(''id'', VNum 4), (''t'', VNum 11)]]"

definition ties_query :: builder where
  "ties_query = \<lparr>statements = [SOrderBasic ''t'' Asc], limit_val = None\<rparr>"

definition year_table :: "row list" where
  "year_table =
     [[(''rank'', VNum 1), (''2024'', VNum 9)],
      [(''rank'', VNum 2), (''2024'', VNum 5)]]"

definition year_query :: builder where
  "year_query =
     \<lparr>statements = [SOrderBasic ''rank'' Asc, SOrderBasic ''2024'' Asc], limit_val = None\<rparr>"

section \<open>Properties\<close>

subsection \<open>Statement lists after the builder operations\<close>

lemma map_filter_append:
  "List.map_filter f (xs @ ys) = List.map_filter f xs @ List.map_filter f ys"
  by (simp add: List.map_filter_def)

lemma statements_applyOrderBy:
  "statements (applyOrderBy q ob rv) =
     statements q @ map (\<lambda>c. SOrderBasic (column c)
        (if rv then (if direction c = Asc then Desc else Asc) else direction c)) ob"
  unfolding applyOrderBy_def
  by (induction ob arbitrary: q) (simp_all add: qb_orderBy_def)

lemma limit_val_applyOrderBy: "limit_val (applyOrderBy q ob rv) = limit_val q"
  unfolding applyOrderBy_def
  by (induction ob arbitrary: q) (simp_all add: qb_orderBy_def)

lemma where_of_cleared:
  "List.map_filter where_of (filter (\<lambda>s. \<not> is_order s) xs) = List.map_filter where_of xs"
proof (induction xs)
  case Nil show ?case by simp
next
  case (Cons s xs) then show ?case by (cases s) (simp_all add: List.map_filter_simps)
qed

lemma order_of_cleared:
  "List.map_filter order_clause_of (filter (\<lambda>s. \<not> is_order s) xs) = []"
proof (induction xs)
  case Nil show ?case by (simp add: List.map_filter_simps)
next
  case (Cons s xs) then show ?case by (cases s) (simp_all add: List.map_filter_simps)
qed

lemma where_of_orders: "List.map_filter where_of (map (\<lambda>c. SOrderBasic (f c) (g c)) ob) = []"
  by (induction ob) (simp_all add: List.map_filter_simps)

lemma order_of_orders:
  "List.map_filter order_clause_of (map (\<lambda>c. SOrderBasic (column c) (g c)) ob)
     = map (\<lambda>c. \<lparr>column = column c, direction = g c\<rparr>) ob"
  by (induction ob) (simp_all add: List.map_filter_simps)

lemma clause_eta: "\<lparr>column = column c, direction = direction c\<rparr> = (c::OrderByClause)"
  by (cases c) simp

lemma order_of_orders_same:
  "List.map_filter order_clause_of (map (\<lambda>c. SOrderBasic (column c) (direction c)) ob) = ob"
  by (induction ob) (simp_all add: List.map_filter_simps clause_eta)

lemma where_stmts_default: "where_stmts (fst (default_order q)) = where_stmts q"
  by (simp add: default_order_def Let_def where_stmts_def qb_orderBy_def map_filter_append
      List.map_filter_simps)

subsection \<open>A call without a cursor\<close>

lemma paginate_no_cursor:
  "\<not> cursor_truthy c \<Longrightarrow> cursorPaginate fetch q limit c =
     (let q5 = qb_limit (applyOrderBy (clearOrderByStatements (fst (default_order q)))
                  (snd (default_order q)) False) (limit + 1)
      in case fetch q5 of Inl e \<Rightarrow> (Inl e, q5)
         | Inr fetched \<Rightarrow>
             (assemble_page (convertOrderByToColumns (snd (default_order q))) limit False JNull
                fetched, q5))"
  by (cases c) (auto simp: cursorPaginate_def read_cursor_def Let_def split: prod.splits sum.splits)

lemma assemble_no_cursor_prev:
  "assemble_page cols limit False cd fetched = Inr p \<Longrightarrow> prevCursor p = None"
  by (auto simp: assemble_page_def Let_def split: sum.splits if_splits)

text \<open>
  Claim C10.  With the empty string as cursor the call is the call without a cursor:
  same result and same builder; the \<^verbatim>\<open>where\<close> statements are those of the caller (no
  boundary filter), the ordering is the builder's own (or the default), and a page
  returned carries no \<open>prevCursor\<close>.  This holds for every row source \<open>fetch\<close>.
\<close>

theorem empty_string_cursor_is_no_cursor:
  "cursorPaginate fetch q limit (Some EmptyString) = cursorPaginate fetch q limit None
   \<and> where_stmts (snd (cursorPaginate fetch q limit (Some EmptyString))) = where_stmts q
   \<and> extractOrderByClauses (snd (cursorPaginate fetch q limit (Some EmptyString)))
       = snd (default_order q)
   \<and> (case fst (cursorPaginate fetch q limit (Some EmptyString)) of
         Inl e \<Rightarrow> True | Inr p \<Rightarrow> prevCursor p = None)"
proof -
  have nt: "\<not> cursor_truthy (Some EmptyString)" "\<not> cursor_truthy None"
    by (simp_all add: cursor_truthy_def)
  let ?q5 = "qb_limit (applyOrderBy (clearOrderByStatements (fst (default_order q)))
               (snd (default_order q)) False) (limit + 1)"
  have w: "where_stmts ?q5 = where_stmts q"
    using where_stmts_default[of q]
    by (simp add: where_stmts_def qb_limit_def statements_applyOrderBy
        clearOrderByStatements_def map_filter_append where_of_cleared where_of_orders)
  have o: "extractOrderByClauses ?q5 = snd (default_order q)"
    by (simp add: extractOrderByClauses_def qb_limit_def statements_applyOrderBy
        clearOrderByStatements_def map_filter_append order_of_cleared order_of_orders_same)
  have s: "snd (cursorPaginate fetch q limit (Some EmptyString)) = ?q5"
    by (simp add: paginate_no_cursor[OF nt(1)] Let_def split: sum.splits)
  have p: "(case fst (cursorPaginate fetch q limit (Some EmptyString)) of
         Inl e \<Rightarrow> True | Inr p \<Rightarrow> prevCursor p = None)"
    by (auto simp: paginate_no_cursor[OF nt(1)] Let_def split: sum.splits
        dest: assemble_no_cursor_prev)
  show ?thesis
    using w o p
    by (simp add: s) (simp add: paginate_no_cursor[OF nt(1)] paginate_no_cursor[OF nt(2)])
qed

subsection \<open>The columns object of an ordering with plain column names\<close>

lemma obj_set_fresh: "k \<notin> fst ` set obj \<Longrightarrow> obj_set obj k v = obj @ [(k, v)]"
  by (induction obj) auto

lemma foldl_obj_set:
  "distinct (map column spec) \<Longrightarrow> fst ` set acc \<inter> column ` set spec = {} \<Longrightarrow>
   foldl (\<lambda>acc clause. obj_set acc (column clause) (direction clause)) acc spec
     = acc @ columns_of spec"
proof (induction spec arbitrary: acc)
  case Nil
  then show ?case by (simp add: columns_of_def)
next
  case (Cons c cs)
  have fresh: "column c \<notin> fst ` set acc" using Cons.prems(2) by auto
  have d: "distinct (map column cs)" using Cons.prems(1) by simp
  have disj: "fst ` set (acc @ [(column c, direction c)]) \<inter> column ` set cs = {}"
    using Cons.prems by auto
  show ?case
    using Cons.IH[OF d disj] by (simp add: obj_set_fresh[OF fresh] columns_of_def)
qed

lemma convert_plain:
  "distinct (map column spec) \<Longrightarrow> convertOrderByToColumns spec = columns_of spec"
  using foldl_obj_set[of spec "[]"] by (simp add: convertOrderByToColumns_def)

lemma own_entries_plain:
  assumes "list_all (\<lambda>e. \<not> is_array_index (fst e)) obj"
  shows "own_entries obj = obj"
proof -
  from assms have "filter (\<lambda>e. is_array_index (fst e)) obj = []"
    by (simp add: list_all_iff filter_empty_conv)
  moreover from assms have "filter (\<lambda>e. \<not> is_array_index (fst e)) obj = obj"
    by (simp add: list_all_iff)
  ultimately show ?thesis by (simp add: own_entries_def)
qed

lemma keys_columns_of:
  "list_all (\<lambda>c. \<not> is_array_index (column c)) spec \<Longrightarrow>
     object_keys (columns_of spec) = map column spec"
  "list_all (\<lambda>c. \<not> is_array_index (column c)) spec \<Longrightarrow>
     object_values (columns_of spec) = map direction spec"
  by (simp_all add: object_keys_def object_values_def own_entries_plain columns_of_def
      list_all_iff comp_def)

lemma keys_plain:
  "plain_columns spec \<Longrightarrow> object_keys (convertOrderByToColumns spec) = map column spec"
  "plain_columns spec \<Longrightarrow> object_values (convertOrderByToColumns spec) = map direction spec"
  by (simp_all add: plain_columns_def convert_plain keys_columns_of)

subsection \<open>Round trip of the cursor codec\<close>





subsection \<open>The row order is a total preorder\<close>

lemma dir_less_asym: "dir_less d a b \<Longrightarrow> \<not> dir_less d b a"
  by (auto simp: dir_less_def split: if_splits)

lemma dir_less_trans: "dir_less d a b \<Longrightarrow> dir_less d b c \<Longrightarrow> dir_less d a c"
  by (auto simp: dir_less_def split: if_splits)

lemma dir_less_neither:
  "\<not> dir_less d a b \<Longrightarrow> \<not> dir_less d b a \<Longrightarrow> val_key a = val_key b"
  by (auto simp: dir_less_def split: if_splits)

lemma dir_less_key_eq:
  "val_key a = val_key a' \<Longrightarrow> val_key b = val_key b' \<Longrightarrow> dir_less d a b = dir_less d a' b'"
  by (simp add: dir_less_def)

lemma row_le_total: "row_le ob r s \<or> row_le ob s r"
  by (induction ob) (auto dest: dir_less_asym)

lemma row_le_refl: "row_le ob r r"
  using row_le_total[of ob r r] by simp

lemma row_le_trans: "row_le ob r s \<Longrightarrow> row_le ob s t \<Longrightarrow> row_le ob r t"
proof (induction ob)
  case Nil
  then show ?case by simp
next
  case (Cons c cs)
  let ?a = "map_of r (column c)" and ?b = "map_of s (column c)" and ?e = "map_of t (column c)"
  let ?d = "direction c"
  consider (lt1) "dir_less ?d ?a ?b" | (eq1) "\<not> dir_less ?d ?a ?b" "\<not> dir_less ?d ?b ?a" "row_le cs r s"
    using Cons.prems(1) by (auto split: if_splits)
  then show ?case
  proof cases
    case lt1
    consider (lt2) "dir_less ?d ?b ?e" | (eq2) "\<not> dir_less ?d ?b ?e" "\<not> dir_less ?d ?e ?b"
      using Cons.prems(2) by (auto split: if_splits)
    then show ?thesis
    proof cases
      case lt2
      with lt1 have "dir_less ?d ?a ?e" by (rule dir_less_trans)
      then show ?thesis by simp
    next
      case eq2
      then have "val_key ?b = val_key ?e" by (rule dir_less_neither)
      with lt1 have "dir_less ?d ?a ?e" by (metis dir_less_key_eq)
      then show ?thesis by simp
    qed
  next
    case eq1
    then have k: "val_key ?a = val_key ?b" using dir_less_neither by blast
    consider (lt2) "dir_less ?d ?b ?e" | (eq2) "\<not> dir_less ?d ?b ?e" "\<not> dir_less ?d ?e ?b" "row_le cs s t"
      using Cons.prems(2) by (auto split: if_splits)
    then show ?thesis
    proof cases
      case lt2
      with k have "dir_less ?d ?a ?e" by (metis dir_less_key_eq)
      then show ?thesis by simp
    next
      case eq2
      then have "val_key ?b = val_key ?e" using dir_less_neither by blast
      with k have "\<not> dir_less ?d ?a ?e" "\<not> dir_less ?d ?e ?a"
        using eq1(1,2) by (metis dir_less_key_eq)+
      moreover have "row_le cs r t" using Cons.IH eq1(3) eq2(3) by blast
      ultimately show ?thesis by simp
    qed
  qed
qed

lemma row_le_flip: "row_le (map flip_clause ob) r s = row_le ob s r"
  by (induction ob) (auto simp: flip_clause_def dir_less_def split: if_splits)

subsection \<open>Insertion sort\<close>

lemma mset_insert_row: "mset (insert_row ob r rs) = add_mset r (mset rs)"
  by (induction rs) auto

lemma mset_sort_rows: "mset (sort_rows ob rs) = mset rs"
  by (induction rs) (simp_all add: sort_rows_def mset_insert_row)

lemma set_sort_rows: "set (sort_rows ob rs) = set rs"
  using mset_sort_rows[of ob rs] by (metis set_mset_mset)

lemma length_sort_rows: "length (sort_rows ob rs) = length rs"
  using mset_sort_rows[of ob rs] by (metis size_mset)

lemma set_insert_row: "set (insert_row ob r rs) = insert r (set rs)"
  using mset_insert_row[of ob r rs] by (metis set_mset_add_mset_insert set_mset_mset)

lemma sorted_insert_row:
  "sorted_wrt (row_le ob) rs \<Longrightarrow> sorted_wrt (row_le ob) (insert_row ob r rs)"
proof (induction rs)
  case Nil
  then show ?case by simp
next
  case (Cons s ss)
  show ?case
  proof (cases "row_le ob r s")
    case True
    then have "\<forall>x\<in>set ss. row_le ob r x"
      using Cons.prems row_le_trans by auto
    then show ?thesis using True Cons.prems by simp
  next
    case False
    then have "row_le ob s r" using row_le_total by blast
    then show ?thesis using False Cons by (auto simp: set_insert_row)
  qed
qed

lemma sorted_sort_rows: "sorted_wrt (row_le ob) (sort_rows ob rs)"
  by (induction rs) (simp_all add: sort_rows_def sorted_insert_row)

lemma sorted_wrt_unique:
  assumes "sorted_wrt le xs" "sorted_wrt le ys" "mset xs = mset ys"
    and "\<And>x y. x \<in> set xs \<Longrightarrow> y \<in> set xs \<Longrightarrow> le x y \<Longrightarrow> le y x \<Longrightarrow> x = y"
  shows "xs = ys"
  using assms
proof (induction xs arbitrary: ys)
  case Nil
  then show ?case by simp
next
  case (Cons x xs)
  then obtain y ys' where ys: "ys = y # ys'" by (cases ys) auto
  have sets: "set (x # xs) = set (y # ys')"
    using Cons.prems(3) ys by (metis set_mset_mset)
  have xy: "x = y"
  proof (rule ccontr)
    assume ne: "x \<noteq> y"
    have "x \<in> set ys'" using sets ne by auto
    then have 1: "le y x" using Cons.prems(2) ys by auto
    have "y \<in> set xs" using sets ne by auto
    then have 2: "le x y" using Cons.prems(1) by auto
    have "y \<in> set (x # xs)" using sets by auto
    then show False using Cons.prems(4)[of x y] 1 2 ne by auto
  qed
  have "mset xs = mset ys'" using Cons.prems(3) ys xy by simp
  moreover have "sorted_wrt le xs" "sorted_wrt le ys'" using Cons.prems ys by auto
  ultimately have "xs = ys'" using Cons.IH[of ys'] Cons.prems(4) by auto
  then show ?case using xy ys by simp
qed

subsection \<open>The cursor filter is the boundary predicate\<close>

lemma boundary_pred_step:
  "boundary_pred (c # cs) (v # vs) ptn r =
     (strict_side c v ptn r
      \<or> (holds_basic r (Some (column c)) OpEq (Some v) \<and> boundary_pred cs vs ptn r))"
  by (cases cs) simp_all

lemma strict_op_side:
  "holds_basic r (Some (column c)) (strict_op ptn (Some (direction c))) (Some v)
     = strict_side c v ptn r"
  by (cases "direction c") (simp_all add: strict_op_def strict_side_def)

lemma first_columns_of:
  assumes "list_all (\<lambda>c. \<not> is_array_index (column c)) (c # cs)"
  shows "first_elem (object_keys (columns_of (c # cs))) = Some (column c)"
    and "first_elem (object_values (columns_of (c # cs))) = Some (direction c)"
  using keys_columns_of[OF assms] by (simp_all add: first_elem_def)

lemma delete_columns_of:
  "column c \<notin> set (map column cs) \<Longrightarrow>
     delete_column (columns_of (c # cs)) (Some (column c)) = columns_of cs"
  by (induction cs) (auto simp: delete_column_def obj_delete_def columns_of_def)

lemma holds_cursor_conditions:
  assumes "list_all (\<lambda>c. \<not> is_array_index (column c)) spec" "distinct (map column spec)"
    and "vals \<noteq> []" "length vals \<le> length spec"
  shows "holds r (Wrapped (cursor_conditions (columns_of spec) vals ptn))
           = boundary_pred (take (length vals) spec) vals ptn r"
  using assms
proof (induction vals arbitrary: spec)
  case Nil
  then show ?case by simp
next
  case (Cons v vs)
  then obtain c cs where spec: "spec = c # cs" by (cases spec) auto
  have plain: "list_all (\<lambda>c. \<not> is_array_index (column c)) (c # cs)"
    using Cons.prems(1) spec by simp
  show ?case
  proof (cases vs)
    case Nil
    then show ?thesis
      by (simp add: spec first_columns_of[OF plain] strict_op_side)
  next
    case (Cons w ws)
    have fresh: "column c \<notin> set (map column cs)" using Cons.prems(2) spec by simp
    have ih: "holds r (Wrapped (cursor_conditions (columns_of cs) vs ptn))
                = boundary_pred (take (length vs) cs) vs ptn r"
      using Cons.IH[of cs] Cons.prems spec Cons by simp
    show ?thesis
      using ih
      by (simp add: spec Cons first_columns_of[OF plain] strict_op_side
          delete_columns_of[OF fresh] boundary_pred_step Let_def)
  qed
qed

subsection \<open>The boundary predicate is the row order\<close>

lemma cmp_key:
  assumes "type_rank a = type_rank b" "type_rank a \<noteq> 0" "map_of r c = a"
  shows "holds_basic r (Some c) OpGt (Some (to_json b)) = (val_key b < val_key a)"
    and "holds_basic r (Some c) OpLt (Some (to_json b)) = (val_key a < val_key b)"
    and "holds_basic r (Some c) OpEq (Some (to_json b)) = (val_key a = val_key b)"
  using assms
  by (cases a rule: val_key.cases; cases b rule: val_key.cases;
      auto simp: type_rank_def holds_basic_def)+

lemma key_inj:
  assumes "type_rank a = type_rank b" "type_rank a \<noteq> 0" "val_key a = val_key b"
  shows "a = b"
  using assms
  by (cases a rule: val_key.cases; cases b rule: val_key.cases;
      auto simp: type_rank_def split: if_splits)

lemma row_less_Nil: "row_less [] x y = False"
  by (simp add: row_less_def)

lemma row_less_step:
  "row_less (c # cs) x y =
     (dir_less (direction c) (map_of x (column c)) (map_of y (column c))
      \<or> (val_key (map_of x (column c)) = val_key (map_of y (column c)) \<and> row_less cs x y))"
proof -
  let ?a = "map_of x (column c)" and ?b = "map_of y (column c)"
  show ?thesis
  proof (cases "dir_less (direction c) ?a ?b")
    case True
    then show ?thesis using dir_less_asym[OF True] by (simp add: row_less_def)
  next
    case False
    show ?thesis
    proof (cases "dir_less (direction c) ?b ?a")
      case True
      then have "val_key ?a \<noteq> val_key ?b" by (auto simp: dir_less_def split: if_splits)
      then show ?thesis using True False by (simp add: row_less_def)
    next
      case nb: False
      have "val_key ?a = val_key ?b" using False nb by (rule dir_less_neither)
      then show ?thesis using False nb by (simp add: row_less_def)
    qed
  qed
qed

lemma boundary_pred_order:
  assumes "typed_like ob b r"
  shows "boundary_pred ob (cursor_values ob b) True r = row_less ob b r"
    and "boundary_pred ob (cursor_values ob b) False r = row_less ob r b"
  using assms
proof (induction ob)
  case Nil
  { case 1 show ?case by (simp add: row_less_Nil cursor_values_def) }
  { case 2 show ?case by (simp add: row_less_Nil cursor_values_def) }
next
  case (Cons c cs)
  let ?a = "map_of r (column c)" and ?v = "map_of b (column c)"
  { case 1
    have ty: "type_rank ?a = type_rank ?v" "type_rank ?a \<noteq> 0" and tl: "typed_like cs b r"
      using 1 by (simp_all add: typed_like_def)
    have s: "strict_side c (to_json ?v) True r = dir_less (direction c) ?v ?a"
      using cmp_key(1,2)[OF ty refl] by (cases "direction c") (simp_all add: strict_side_def dir_less_def)
    have e: "holds_basic r (Some (column c)) OpEq (Some (to_json ?v)) = (val_key ?v = val_key ?a)"
      using cmp_key(3)[OF ty refl] by auto
    show ?case
      using Cons.IH(1)[OF tl] by (simp add: cursor_values_def boundary_pred_step row_less_step s e) }
  { case 2
    have ty: "type_rank ?a = type_rank ?v" "type_rank ?a \<noteq> 0" and tl: "typed_like cs b r"
      using 2 by (simp_all add: typed_like_def)
    have s: "strict_side c (to_json ?v) False r = dir_less (direction c) ?a ?v"
      using cmp_key(1,2)[OF ty refl] by (cases "direction c") (simp_all add: strict_side_def dir_less_def)
    have e: "holds_basic r (Some (column c)) OpEq (Some (to_json ?v)) = (val_key ?a = val_key ?v)"
      using cmp_key(3)[OF ty refl] by auto
    show ?case
      using Cons.IH(2)[OF tl] by (simp add: cursor_values_def boundary_pred_step row_less_step s e) }
qed

lemma row_le_antisym_key:
  assumes "typed_like ob r s" "row_le ob r s" "row_le ob s r"
  shows "key_of ob r = key_of ob s"
  using assms
proof (induction ob)
  case Nil
  then show ?case by (simp add: key_of_def)
next
  case (Cons c cs)
  let ?a = "map_of r (column c)" and ?b = "map_of s (column c)"
  have ty: "type_rank ?a = type_rank ?b" "type_rank ?a \<noteq> 0" and tl: "typed_like cs r s"
    using Cons.prems(1) by (simp_all add: typed_like_def)
  have n1: "\<not> dir_less (direction c) ?a ?b"
    using Cons.prems(3) dir_less_asym by (auto split: if_splits)
  have n2: "\<not> dir_less (direction c) ?b ?a"
    using Cons.prems(2) dir_less_asym by (auto split: if_splits)
  have "val_key ?a = val_key ?b" using n1 n2 by (rule dir_less_neither)
  then have "?a = ?b" using key_inj[OF ty] by simp
  moreover have "key_of cs r = key_of cs s"
    using Cons.IH[OF tl] Cons.prems(2,3) n1 n2 by simp
  ultimately show ?case by (simp add: key_of_def)
qed

subsection \<open>The query handed to the row source\<close>

lemma holds_chain_and:
  "list_all (\<lambda>s. fst s = BAnd) ss \<Longrightarrow>
     holds_chain r acc (ss @ [(BAnd, c)]) = (holds_chain r acc ss \<and> holds r c)"
  by (induction ss arbitrary: acc) simp_all

lemma holds_wrapped_and:
  assumes "list_all (\<lambda>s. fst s = BAnd) ws"
  shows "holds r (Wrapped (ws @ [(BAnd, c)])) = (holds r (Wrapped ws) \<and> holds r c)"
proof (cases ws)
  case Nil
  then show ?thesis by simp
next
  case (Cons s ss)
  then have "list_all (\<lambda>s. fst s = BAnd) ss" using assms by simp
  then show ?thesis using Cons by (simp add: holds_chain_and)
qed

lemma where_stmts_fetch_query:
  "where_stmts (fetch_query q g rv limit)
     = where_stmts q @ (case g of None \<Rightarrow> [] | Some G \<Rightarrow> [(BAnd, Wrapped G)])"
  using where_stmts_default[of q]
  by (cases g)
     (simp_all add: fetch_query_def where_stmts_def qb_limit_def statements_applyOrderBy
        clearOrderByStatements_def qb_where_wrapped_def map_filter_append where_of_cleared
        where_of_orders List.map_filter_simps)

lemma order_fetch_query:
  "List.map_filter order_clause_of (statements (fetch_query q g rv limit))
     = (if rv then map flip_clause (effective_order q) else effective_order q)"
  by (cases g)
     (simp_all add: fetch_query_def qb_limit_def statements_applyOrderBy
        clearOrderByStatements_def qb_where_wrapped_def map_filter_append order_of_cleared
        order_of_orders clause_eta flip_clause_def)

lemma limit_fetch_query: "limit_val (fetch_query q g rv limit) = Some (limit + 1)"
  by (simp add: fetch_query_def qb_limit_def)

lemma matches_fetch_query:
  assumes "and_only q"
  shows "matches (fetch_query q (Some G) rv limit) r = (matches q r \<and> holds r (Wrapped G))"
    and "matches (fetch_query q None rv limit) r = matches q r"
  using assms
  by (simp_all add: matches_def where_stmts_fetch_query holds_wrapped_and and_only_def)

lemma run_fetch_query:
  assumes "0 \<le> limit + 1"
  shows "run_query table (fetch_query q g rv limit)
     = Inr (take (nat (limit + 1))
         (sort_rows (if rv then map flip_clause (effective_order q) else effective_order q)
            (filter (matches (fetch_query q g rv limit)) table)))"
  using assms by (simp add: run_query_def order_fetch_query limit_fetch_query Let_def)

lemma paginate_cursor:
  "cursorPaginate fetch q limit (Some (Base64Json (cursor_json vals ptn))) =
     (let q5 = fetch_query q (Some (cursor_conditions (convertOrderByToColumns (effective_order q)) vals ptn)) (\<not> ptn) limit
      in case fetch q5 of Inl e \<Rightarrow> (Inl e, q5)
         | Inr fetched \<Rightarrow>
             (assemble_page (convertOrderByToColumns (effective_order q)) limit True
                (cursor_json vals ptn) fetched, q5))"
  by (simp add: cursorPaginate_def read_cursor_def cursor_truthy_def cursor_json_def
      applyCursorConditions_def prop_truthy_def fetch_query_def effective_order_def Let_def
      split: prod.splits sum.splits)

lemma paginate_none:
  "cursorPaginate fetch q limit None =
     (let q5 = fetch_query q None False limit
      in case fetch q5 of Inl e \<Rightarrow> (Inl e, q5)
         | Inr fetched \<Rightarrow>
             (assemble_page (convertOrderByToColumns (effective_order q)) limit False JNull
                fetched, q5))"
  using paginate_no_cursor[of None fetch q limit]
  unfolding fetch_query_def effective_order_def by (simp add: cursor_truthy_def)

subsection \<open>Filtering a strictly sorted list at one of its rows\<close>

lemma sorted_strict:
  assumes "sorted_wrt (row_le ob) xs" "distinct xs"
    and "\<And>x y. x \<in> set xs \<Longrightarrow> y \<in> set xs \<Longrightarrow> row_le ob x y \<Longrightarrow> row_le ob y x \<Longrightarrow> x = y"
  shows "sorted_wrt (row_less ob) xs"
  using assms
proof (induction xs)
  case Nil
  then show ?case by simp
next
  case (Cons x xs)
  have "row_less ob x y" if "y \<in> set xs" for y
  proof -
    have "row_le ob x y" using Cons.prems(1) that by simp
    moreover have "x \<noteq> y" using Cons.prems(2) that by auto
    ultimately show ?thesis using Cons.prems(3)[of x y] that by (auto simp: row_less_def)
  qed
  moreover have "sorted_wrt (row_less ob) xs"
    using Cons.IH Cons.prems by auto
  ultimately show ?case by simp
qed

lemma row_less_irrefl: "\<not> row_less ob x x"
  by (simp add: row_less_def)

lemma row_less_asym: "row_less ob x y \<Longrightarrow> \<not> row_less ob y x"
  by (simp add: row_less_def)

lemma filter_after:
  assumes "sorted_wrt (row_less ob) xs" "i < length xs"
  shows "filter (row_less ob (xs ! i)) xs = drop (Suc i) xs"
proof -
  have split: "xs = take i xs @ (xs ! i) # drop (Suc i) xs"
    using assms(2) by (simp add: id_take_nth_drop)
  have s: "sorted_wrt (row_less ob) (take i xs @ (xs ! i) # drop (Suc i) xs)"
    using assms(1) split by simp
  have before: "\<forall>x\<in>set (take i xs). row_less ob x (xs ! i)"
    and after: "\<forall>x\<in>set (drop (Suc i) xs). row_less ob (xs ! i) x"
    using s by (auto simp: sorted_wrt_append)
  have "filter (row_less ob (xs ! i)) (take i xs) = []"
    using before row_less_asym by (auto simp: filter_empty_conv)
  moreover have "filter (row_less ob (xs ! i)) (drop (Suc i) xs) = drop (Suc i) xs"
    using after by simp
  ultimately have "filter (row_less ob (xs ! i)) (take i xs @ (xs ! i) # drop (Suc i) xs)
      = drop (Suc i) xs"
    by (simp add: row_less_irrefl)
  then show ?thesis using split by simp
qed

lemma filter_before:
  assumes "sorted_wrt (row_less ob) xs" "i < length xs"
  shows "filter (\<lambda>r. row_less ob r (xs ! i)) xs = take i xs"
proof -
  have split: "xs = take i xs @ (xs ! i) # drop (Suc i) xs"
    using assms(2) by (simp add: id_take_nth_drop)
  have s: "sorted_wrt (row_less ob) (take i xs @ (xs ! i) # drop (Suc i) xs)"
    using assms(1) split by simp
  have before: "\<forall>x\<in>set (take i xs). row_less ob x (xs ! i)"
    and after: "\<forall>x\<in>set (drop (Suc i) xs). row_less ob (xs ! i) x"
    using s by (auto simp: sorted_wrt_append)
  have "filter (\<lambda>r. row_less ob r (xs ! i)) (drop (Suc i) xs) = []"
    using after row_less_asym by (auto simp: filter_empty_conv)
  moreover have "filter (\<lambda>r. row_less ob r (xs ! i)) (take i xs) = take i xs"
    using before by simp
  ultimately have "filter (\<lambda>r. row_less ob r (xs ! i)) (take i xs @ (xs ! i) # drop (Suc i) xs)
      = take i xs"
    by (simp add: row_less_irrefl)
  then show ?thesis using split by simp
qed

subsection \<open>The listing of a well-keyed table\<close>

lemma well_keyed_facts:
  assumes "well_keyed table q"
  shows "plain_columns (effective_order q)" "and_only q"
    and "\<And>r s. r \<in> set (listing table q) \<Longrightarrow> s \<in> set (listing table q)
            \<Longrightarrow> typed_like (effective_order q) r s"
    and "\<And>r s. r \<in> set (listing table q) \<Longrightarrow> s \<in> set (listing table q)
            \<Longrightarrow> row_le (effective_order q) r s \<Longrightarrow> row_le (effective_order q) s r \<Longrightarrow> r = s"
    and "distinct (listing table q)"
    and "sorted_wrt (row_less (effective_order q)) (listing table q)"
proof -
  let ?ob = "effective_order q" and ?rows = "filter (matches q) table"
  let ?L = "listing table q"
  show "plain_columns ?ob" "and_only q"
    using assms by (simp_all add: well_keyed_def Let_def)
  have setL: "set ?L = set ?rows" by (simp add: listing_def set_sort_rows)
  have ty: "typed_like ?ob r s" if "r \<in> set ?L" "s \<in> set ?L" for r s
    using assms that unfolding setL by (auto simp: well_keyed_def Let_def list_all_iff)
  show "typed_like ?ob r s" if "r \<in> set ?L" "s \<in> set ?L" for r s
    using ty that .
  have dk: "distinct (map (key_of ?ob) ?rows)"
    using assms by (simp add: well_keyed_def Let_def)
  then have inj: "inj_on (key_of ?ob) (set ?rows)" and dr: "distinct ?rows"
    by (simp_all add: distinct_map)
  show anti: "r = s" if "r \<in> set ?L" "s \<in> set ?L" "row_le ?ob r s" "row_le ?ob s r" for r s
  proof -
    have "key_of ?ob r = key_of ?ob s"
      using row_le_antisym_key[OF ty[OF that(1,2)] that(3,4)] .
    then show ?thesis using inj that(1,2) unfolding setL by (auto dest: inj_onD)
  qed
  show dL: "distinct ?L"
    using dr mset_sort_rows[of ?ob ?rows] unfolding listing_def
    by (metis mset_eq_imp_distinct_iff)
  show "sorted_wrt (row_less ?ob) ?L"
  proof (rule sorted_strict)
    show "sorted_wrt (row_le ?ob) ?L" by (simp add: listing_def sorted_sort_rows)
    show "distinct ?L" by (rule dL)
    show "\<And>x y. x \<in> set ?L \<Longrightarrow> y \<in> set ?L \<Longrightarrow> row_le ?ob x y \<Longrightarrow> row_le ?ob y x \<Longrightarrow> x = y"
      using anti by blast
  qed
qed

subsection \<open>What the row source returns to a call\<close>

lemma effective_order_nonempty: "effective_order q \<noteq> []"
  by (simp add: effective_order_def default_order_def Let_def)

lemma cursor_filter_order:
  assumes wk: "well_keyed table q"
    and b: "b \<in> set (listing table q)" and r: "r \<in> set (listing table q)"
  shows "holds r (Wrapped (cursor_conditions (convertOrderByToColumns (effective_order q))
            (cursor_values (effective_order q) b) True)) = row_less (effective_order q) b r"
    and "holds r (Wrapped (cursor_conditions (convertOrderByToColumns (effective_order q))
            (cursor_values (effective_order q) b) False)) = row_less (effective_order q) r b"
proof -
  let ?ob = "effective_order q"
  have plain: "plain_columns ?ob" using well_keyed_facts(1)[OF wk] .
  then have d: "distinct (map column ?ob)"
    and ni: "list_all (\<lambda>c. \<not> is_array_index (column c)) ?ob"
    by (simp_all add: plain_columns_def)
  have ne: "cursor_values ?ob b \<noteq> []" and len: "length (cursor_values ?ob b) = length ?ob"
    using effective_order_nonempty[of q] by (simp_all add: cursor_values_def)
  have ty: "typed_like ?ob b r" using well_keyed_facts(3)[OF wk b r] .
  have "holds r (Wrapped (cursor_conditions (columns_of ?ob) (cursor_values ?ob b) ptn))
          = boundary_pred ?ob (cursor_values ?ob b) ptn r" for ptn
    using holds_cursor_conditions[OF ni d ne, of r ptn] len by simp
  then show "holds r (Wrapped (cursor_conditions (convertOrderByToColumns ?ob)
            (cursor_values ?ob b) True)) = row_less ?ob b r"
    and "holds r (Wrapped (cursor_conditions (convertOrderByToColumns ?ob)
            (cursor_values ?ob b) False)) = row_less ?ob r b"
    using boundary_pred_order[OF ty] by (simp_all add: convert_plain[OF d])
qed

lemma sort_filter_listing:
  assumes wk: "well_keyed table q"
  shows "sort_rows (effective_order q) (filter P (filter (matches q) table))
           = filter P (listing table q)"
    and "sort_rows (map flip_clause (effective_order q)) (filter P (filter (matches q) table))
           = rev (filter P (listing table q))"
proof -
  let ?ob = "effective_order q" and ?rows = "filter (matches q) table"
  let ?L = "listing table q"
  have setL: "set ?L = set ?rows" by (simp add: listing_def set_sort_rows)
  have msetL: "mset ?L = mset ?rows" by (simp add: listing_def mset_sort_rows)
  have mf: "mset (filter P ?rows) = mset (filter P ?L)"
    by (simp only: mset_filter msetL)
  have sL: "sorted_wrt (row_le ?ob) (filter P ?L)"
    by (simp add: listing_def sorted_sort_rows sorted_wrt_filter)
  have anti: "\<And>x y. x \<in> set ?L \<Longrightarrow> y \<in> set ?L \<Longrightarrow> row_le ?ob x y \<Longrightarrow> row_le ?ob y x \<Longrightarrow> x = y"
    using well_keyed_facts(4)[OF wk] by blast
  show "sort_rows ?ob (filter P ?rows) = filter P ?L"
  proof (rule sorted_wrt_unique[where le = "row_le ?ob"])
    show "sorted_wrt (row_le ?ob) (sort_rows ?ob (filter P ?rows))" by (rule sorted_sort_rows)
    show "sorted_wrt (row_le ?ob) (filter P ?L)" by (rule sL)
    show "mset (sort_rows ?ob (filter P ?rows)) = mset (filter P ?L)"
      by (simp only: mset_sort_rows mf)
    show "\<And>x y. x \<in> set (sort_rows ?ob (filter P ?rows)) \<Longrightarrow> y \<in> set (sort_rows ?ob (filter P ?rows))
            \<Longrightarrow> row_le ?ob x y \<Longrightarrow> row_le ?ob y x \<Longrightarrow> x = y"
      using anti by (simp add: set_sort_rows setL)
  qed
  show "sort_rows (map flip_clause ?ob) (filter P ?rows) = rev (filter P ?L)"
  proof (rule sorted_wrt_unique[where le = "row_le (map flip_clause ?ob)"])
    show "sorted_wrt (row_le (map flip_clause ?ob)) (sort_rows (map flip_clause ?ob) (filter P ?rows))"
      by (rule sorted_sort_rows)
    show "sorted_wrt (row_le (map flip_clause ?ob)) (rev (filter P ?L))"
      using sL by (simp add: sorted_wrt_rev row_le_flip)
    show "mset (sort_rows (map flip_clause ?ob) (filter P ?rows)) = mset (rev (filter P ?L))"
      by (simp only: mset_sort_rows mf mset_rev)
    show "\<And>x y. x \<in> set (sort_rows (map flip_clause ?ob) (filter P ?rows))
            \<Longrightarrow> y \<in> set (sort_rows (map flip_clause ?ob) (filter P ?rows))
            \<Longrightarrow> row_le (map flip_clause ?ob) x y \<Longrightarrow> row_le (map flip_clause ?ob) y x \<Longrightarrow> x = y"
      using anti by (simp add: set_sort_rows setL row_le_flip)
  qed
qed

lemma fetched_none:
  assumes "0 \<le> limit + 1"
  shows "run_query table (fetch_query q None False limit)
           = Inr (take (nat (limit + 1)) (listing table q))"
proof -
  have "matches (fetch_query q None False limit) = matches q"
    by (rule ext) (simp add: matches_def where_stmts_fetch_query)
  then show ?thesis
    using run_fetch_query[OF assms, of table q None False] by (simp add: listing_def)
qed

lemma fetched_forward:
  assumes wk: "well_keyed table q" and i: "i < length (listing table q)" and l: "0 \<le> limit + 1"
  shows "run_query table (fetch_query q
            (Some (cursor_conditions (convertOrderByToColumns (effective_order q))
                     (cursor_values (effective_order q) (listing table q ! i)) True)) False limit)
           = Inr (take (nat (limit + 1)) (drop (Suc i) (listing table q)))"
proof -
  let ?ob = "effective_order q" and ?L = "listing table q"
  let ?G = "cursor_conditions (convertOrderByToColumns ?ob) (cursor_values ?ob (?L ! i)) True"
  have setL: "set ?L = set (filter (matches q) table)" by (simp add: listing_def set_sort_rows)
  have b: "?L ! i \<in> set ?L" using i by simp
  have "filter (matches (fetch_query q (Some ?G) False limit)) table
          = filter (\<lambda>r. matches q r \<and> holds r (Wrapped ?G)) table"
    by (rule filter_cong[OF refl])
       (simp add: matches_fetch_query(1)[OF well_keyed_facts(2)[OF wk]])
  also have "\<dots> = filter (\<lambda>r. holds r (Wrapped ?G)) (filter (matches q) table)"
    by (simp add: conj_commute)
  also have "\<dots> = filter (row_less ?ob (?L ! i)) (filter (matches q) table)"
    by (rule filter_cong[OF refl]) (simp add: cursor_filter_order(1)[OF wk b] setL)
  finally have eq: "filter (matches (fetch_query q (Some ?G) False limit)) table
      = filter (row_less ?ob (?L ! i)) (filter (matches q) table)" .
  have "sort_rows ?ob (filter (matches (fetch_query q (Some ?G) False limit)) table)
      = filter (row_less ?ob (?L ! i)) ?L"
    unfolding eq by (rule sort_filter_listing(1)[OF wk])
  also have "\<dots> = drop (Suc i) ?L"
    by (rule filter_after[OF well_keyed_facts(6)[OF wk] i])
  finally show ?thesis
    using run_fetch_query[OF l, of table q "Some ?G" False] by simp
qed

lemma fetched_backward:
  assumes wk: "well_keyed table q" and i: "i < length (listing table q)" and l: "0 \<le> limit + 1"
  shows "run_query table (fetch_query q
            (Some (cursor_conditions (convertOrderByToColumns (effective_order q))
                     (cursor_values (effective_order q) (listing table q ! i)) False)) True limit)
           = Inr (take (nat (limit + 1)) (rev (take i (listing table q))))"
proof -
  let ?ob = "effective_order q" and ?L = "listing table q"
  let ?G = "cursor_conditions (convertOrderByToColumns ?ob) (cursor_values ?ob (?L ! i)) False"
  have setL: "set ?L = set (filter (matches q) table)" by (simp add: listing_def set_sort_rows)
  have b: "?L ! i \<in> set ?L" using i by simp
  have "filter (matches (fetch_query q (Some ?G) True limit)) table
          = filter (\<lambda>r. matches q r \<and> holds r (Wrapped ?G)) table"
    by (rule filter_cong[OF refl])
       (simp add: matches_fetch_query(1)[OF well_keyed_facts(2)[OF wk]])
  also have "\<dots> = filter (\<lambda>r. holds r (Wrapped ?G)) (filter (matches q) table)"
    by (simp add: conj_commute)
  also have "\<dots> = filter (\<lambda>r. row_less ?ob r (?L ! i)) (filter (matches q) table)"
    by (rule filter_cong[OF refl]) (simp add: cursor_filter_order(2)[OF wk b] setL)
  finally have eq: "filter (matches (fetch_query q (Some ?G) True limit)) table
      = filter (\<lambda>r. row_less ?ob r (?L ! i)) (filter (matches q) table)" .
  have "sort_rows (map flip_clause ?ob)
        (filter (matches (fetch_query q (Some ?G) True limit)) table)
      = rev (filter (\<lambda>r. row_less ?ob r (?L ! i)) ?L)"
    unfolding eq by (rule sort_filter_listing(2)[OF wk])
  also have "\<dots> = rev (take i ?L)"
    by (simp add: filter_before[OF well_keyed_facts(6)[OF wk] i])
  finally show ?thesis
    using run_fetch_query[OF l, of table q "Some ?G" True] by simp
qed

subsection \<open>The page assembled from the fetched rows\<close>

lemma genCursor_plain:
  "plain_columns ob \<Longrightarrow>
     genCursor (convertOrderByToColumns ob) (Some r) d = Inr (cursor_for ob r d)"
  by (simp add: genCursor_def keys_plain(1) cursor_for_def cursor_values_def comp_def)

lemma first_last_elem:
  "xs \<noteq> [] \<Longrightarrow> first_elem xs = Some (hd xs)"
  "xs \<noteq> [] \<Longrightarrow> last_elem xs = Some (last xs)"
  by (cases xs; simp add: first_elem_def last_elem_def)+

lemma last_take_nth:
  assumes "1 \<le> n" "n \<le> length xs"
  shows "last (take n xs) = xs ! (n - 1)"
proof -
  have ne: "take n xs \<noteq> []" using assms by auto
  have "last (take n xs) = take n xs ! (length (take n xs) - 1)"
    using ne by (rule last_conv_nth)
  also have "length (take n xs) = n" using assms by simp
  also have "take n xs ! (n - 1) = xs ! (n - 1)" using assms by simp
  finally show ?thesis .
qed

lemma cursor_json_props:
  "js_truthy (cursor_json vals p)"
  "prop_truthy (cursor_json vals p) ''point_to_next'' = p"
  by (simp_all add: cursor_json_def prop_truthy_def)

lemma assemble_first:
  assumes gen: "\<And>r d. genCursor cols (Some r) d = Inr (cur r d)" and n: "1 \<le> n"
  shows "assemble_page cols (int n) False JNull (take (Suc n) xs)
    = Inr \<lparr>items = take n xs,
           nextCursor = (if n < length xs then Some (cur (xs ! (n - 1)) True) else None),
           prevCursor = None\<rparr>"
proof (cases "n < length xs")
  case True
  then have ne: "take n xs \<noteq> []" using n by auto
  have bl: "butlast (take (Suc n) xs) = take n xs" using True by (simp add: butlast_take)
  have la: "last (take n xs) = xs ! (n - 1)"
    using True n by (simp add: last_take_nth)
  have nn: "take (Suc n) xs \<noteq> []" using True by auto
  have len: "\<not> int (length (take (Suc n) xs)) \<le> int n" using True by simp
  show ?thesis
    using True nn len
    by (simp add: assemble_page_def Let_def bl gen first_last_elem(2)[OF ne] la
        del: take_Suc_Cons take_eq_Nil)
next
  case False
  then have t: "take (Suc n) xs = xs" "take n xs = xs" by simp_all
  show ?thesis
    using False by (simp add: assemble_page_def Let_def t)
qed

lemma assemble_forward:
  assumes gen: "\<And>r d. genCursor cols (Some r) d = Inr (cur r d)" and n: "1 \<le> n"
  shows "assemble_page cols (int n) True (cursor_json vals True) (take (Suc n) xs)
    = Inr (if xs = [] then \<lparr>items = [], nextCursor = None, prevCursor = None\<rparr>
           else \<lparr>items = take n xs,
                  nextCursor = (if n < length xs then Some (cur (xs ! (n - 1)) True) else None),
                  prevCursor = Some (cur (xs ! 0) False)\<rparr>)"
proof (cases "n < length xs")
  case True
  then have ne: "take n xs \<noteq> []" and xne: "xs \<noteq> []" using n by auto
  have bl: "butlast (take (Suc n) xs) = take n xs" using True by (simp add: butlast_take)
  have la: "last (take n xs) = xs ! (n - 1)"
    using True n by (simp add: last_take_nth)
  have hd: "hd (take n xs) = xs ! 0" using ne xne n by (simp add: hd_conv_nth)
  have nn: "take (Suc n) xs \<noteq> []" using True by auto
  have len: "\<not> int (length (take (Suc n) xs)) \<le> int n" using True by simp
  show ?thesis
    using True nn len xne
    by (simp add: assemble_page_def Let_def bl gen first_last_elem[OF ne] la hd
        cursor_json_props del: take_Suc_Cons take_eq_Nil)
next
  case False
  then have t: "take (Suc n) xs = xs" "take n xs = xs" by simp_all
  show ?thesis
  proof (cases "xs = []")
    case True
    then show ?thesis by (simp add: assemble_page_def Let_def)
  next
    case ne: False
    have hd: "hd xs = xs ! 0" using ne by (simp add: hd_conv_nth)
    show ?thesis
      using False ne
      by (simp add: assemble_page_def Let_def t gen first_last_elem[OF ne] hd cursor_json_props)
  qed
qed

lemma assemble_backward:
  assumes gen: "\<And>r d. genCursor cols (Some r) d = Inr (cur r d)" and n: "1 \<le> n"
  shows "assemble_page cols (int n) True (cursor_json vals False) (take (Suc n) (rev xs))
    = Inr (if xs = [] then \<lparr>items = [], nextCursor = None, prevCursor = None\<rparr>
           else \<lparr>items = drop (length xs - n) xs,
                  nextCursor = Some (cur (xs ! (length xs - 1)) True),
                  prevCursor = (if n < length xs then Some (cur (xs ! (length xs - n)) False)
                                else None)\<rparr>)"
proof (cases "xs = []")
  case True
  then show ?thesis by (simp add: assemble_page_def Let_def)
next
  case xne: False
  let ?its = "drop (length xs - n) xs"
  have lp: "0 < length xs" using xne by simp
  have lt: "length xs - n < length xs" using lp n by arith
  have ine: "?its \<noteq> []" using lt by simp
  have la: "last ?its = xs ! (length xs - 1)"
    using lt xne by (simp add: last_drop last_conv_nth)
  show ?thesis
  proof (cases "n < length xs")
    case True
    have bl: "butlast (take (Suc n) (rev xs)) = take n (rev xs)"
      using True by (simp add: butlast_take)
    have rv: "rev (take n (rev xs)) = ?its" by (simp add: rev_take)
    have hd: "hd ?its = xs ! (length xs - n)" using True n by (simp add: hd_drop_conv_nth)
    have nn: "take (Suc n) (rev xs) \<noteq> []" using xne by auto
    have len: "\<not> int (length (take (Suc n) (rev xs))) \<le> int n" using True by simp
    show ?thesis
      using True nn len xne
      by (simp add: assemble_page_def Let_def bl rv gen first_last_elem[OF ine] la hd
          cursor_json_props del: take_Suc_Cons take_eq_Nil)
  next
    case False
    then have t: "take (Suc n) (rev xs) = rev xs" "length xs - n = 0" by simp_all
    show ?thesis
      using False xne la
      by (simp add: assemble_page_def Let_def t gen first_last_elem(2)[OF xne]
          cursor_json_props)
  qed
qed

subsection \<open>The three kinds of page over a well-keyed table\<close>

lemma page_first:
  assumes plain: "plain_columns (effective_order q)" and l: "1 \<le> limit"
  shows "fst (cursorPaginate (run_query table) q limit None)
    = Inr \<lparr>items = take (nat limit) (listing table q),
           nextCursor = (if nat limit < length (listing table q)
                         then Some (cursor_for (effective_order q)
                                      (listing table q ! (nat limit - 1)) True)
                         else None),
           prevCursor = None\<rparr>"
proof -
  let ?n = "nat limit"
  have n: "1 \<le> ?n" "int ?n = limit" "nat (limit + 1) = Suc ?n" using l by auto
  have f: "run_query table (fetch_query q None False limit)
             = Inr (take (Suc ?n) (listing table q))"
    using fetched_none[of limit table q] l n(3) by simp
  have a: "assemble_page (convertOrderByToColumns (effective_order q)) (int ?n) False JNull
             (take (Suc ?n) (listing table q))
    = Inr \<lparr>items = take ?n (listing table q),
           nextCursor = (if ?n < length (listing table q)
                         then Some (cursor_for (effective_order q)
                                      (listing table q ! (?n - 1)) True)
                         else None),
           prevCursor = None\<rparr>"
    by (rule assemble_first[OF genCursor_plain[OF plain] n(1)])
  show ?thesis
    unfolding paginate_none Let_def f sum.case fst_conv using a unfolding n(2) .
qed

lemma page_forward:
  assumes wk: "well_keyed table q" and l: "1 \<le> limit" and i: "i < length (listing table q)"
  shows "fst (cursorPaginate (run_query table) q limit
                (Some (cursor_for (effective_order q) (listing table q ! i) True)))
    = Inr (if Suc i = length (listing table q)
           then \<lparr>items = [], nextCursor = None, prevCursor = None\<rparr>
           else \<lparr>items = take (nat limit) (drop (Suc i) (listing table q)),
                  nextCursor = (if Suc i + nat limit < length (listing table q)
                                then Some (cursor_for (effective_order q)
                                             (listing table q ! (i + nat limit)) True)
                                else None),
                  prevCursor = Some (cursor_for (effective_order q)
                                       (listing table q ! Suc i) False)\<rparr>)"
proof -
  let ?n = "nat limit" and ?L = "listing table q" and ?ob = "effective_order q"
  let ?xs = "drop (Suc i) ?L"
  have n: "1 \<le> ?n" "int ?n = limit" "nat (limit + 1) = Suc ?n" using l by auto
  have l0: "0 \<le> limit + 1" using l by simp
  have f: "run_query table (fetch_query q
            (Some (cursor_conditions (convertOrderByToColumns ?ob)
                     (cursor_values ?ob (?L ! i)) True)) False limit)
           = Inr (take (Suc ?n) ?xs)"
    using fetched_forward[OF wk i l0] n(3) by simp
  have e: "(?xs = []) = (Suc i = length ?L)" using i by auto
  have c: "(?n < length ?xs) = (Suc i + ?n < length ?L)" by auto
  have h: "Suc i + (?n - 1) = i + ?n" using n(1) by arith
  have x1: "?xs ! (?n - 1) = ?L ! (i + ?n)" if "?n < length ?xs"
    using i unfolding h[symmetric] by (intro nth_drop) simp
  have x0: "?xs ! 0 = ?L ! Suc i" if "?xs \<noteq> []"
    using that by simp
  have a: "assemble_page (convertOrderByToColumns ?ob) (int ?n) True
             (cursor_json (cursor_values ?ob (?L ! i)) True) (take (Suc ?n) ?xs)
    = Inr (if ?xs = [] then \<lparr>items = [], nextCursor = None, prevCursor = None\<rparr>
           else \<lparr>items = take ?n ?xs,
                  nextCursor = (if ?n < length ?xs then Some (cursor_for ?ob (?xs ! (?n - 1)) True) else None),
                  prevCursor = Some (cursor_for ?ob (?xs ! 0) False)\<rparr>)"
    by (rule assemble_forward[OF genCursor_plain[OF well_keyed_facts(1)[OF wk]] n(1)])
  have pc: "fst (cursorPaginate (run_query table) q limit (Some (cursor_for ?ob (?L ! i) True)))
      = assemble_page (convertOrderByToColumns ?ob) limit True
             (cursor_json (cursor_values ?ob (?L ! i)) True) (take (Suc ?n) ?xs)"
    unfolding cursor_for_def[of ?ob "?L ! i" True] paginate_cursor Let_def not_True_eq_False f
      sum.case fst_conv ..
  show ?thesis
    unfolding pc using a x1 x0 unfolding e c n(2) by (auto simp del: nth_drop drop_eq_Nil)
qed

lemma page_backward:
  assumes wk: "well_keyed table q" and l: "1 \<le> limit" and i: "i < length (listing table q)"
  shows "fst (cursorPaginate (run_query table) q limit
                (Some (cursor_for (effective_order q) (listing table q ! i) False)))
    = Inr (if i = 0
           then \<lparr>items = [], nextCursor = None, prevCursor = None\<rparr>
           else \<lparr>items = drop (i - nat limit) (take i (listing table q)),
                  nextCursor = Some (cursor_for (effective_order q)
                                       (listing table q ! (i - 1)) True),
                  prevCursor = (if nat limit < i
                                then Some (cursor_for (effective_order q)
                                             (listing table q ! (i - nat limit)) False)
                                else None)\<rparr>)"
proof -
  let ?n = "nat limit" and ?L = "listing table q" and ?ob = "effective_order q"
  let ?xs = "take i ?L"
  have n: "1 \<le> ?n" "int ?n = limit" "nat (limit + 1) = Suc ?n" using l by auto
  have l0: "0 \<le> limit + 1" using l by simp
  have f: "run_query table (fetch_query q
            (Some (cursor_conditions (convertOrderByToColumns ?ob)
                     (cursor_values ?ob (?L ! i)) False)) True limit)
           = Inr (take (Suc ?n) (rev ?xs))"
    using fetched_backward[OF wk i l0] n(3) by simp
  have len: "length ?xs = i" using i by simp
  have e: "(?xs = []) = (i = 0)" using i by auto
  have x1: "?xs ! (i - 1) = ?L ! (i - 1)" if "i \<noteq> 0" using that by simp
  have x0: "?xs ! (i - ?n) = ?L ! (i - ?n)" if "?n < i" using that n(1) by simp
  have a: "assemble_page (convertOrderByToColumns ?ob) (int ?n) True
             (cursor_json (cursor_values ?ob (?L ! i)) False) (take (Suc ?n) (rev ?xs))
    = Inr (if ?xs = [] then \<lparr>items = [], nextCursor = None, prevCursor = None\<rparr>
           else \<lparr>items = drop (length ?xs - ?n) ?xs,
                  nextCursor = Some (cursor_for ?ob (?xs ! (length ?xs - 1)) True),
                  prevCursor = (if ?n < length ?xs then Some (cursor_for ?ob (?xs ! (length ?xs - ?n)) False)
                                else None)\<rparr>)"
    by (rule assemble_backward[OF genCursor_plain[OF well_keyed_facts(1)[OF wk]] n(1)])
  have pc: "fst (cursorPaginate (run_query table) q limit (Some (cursor_for ?ob (?L ! i) False)))
      = assemble_page (convertOrderByToColumns ?ob) limit True
             (cursor_json (cursor_values ?ob (?L ! i)) False) (take (Suc ?n) (rev ?xs))"
    unfolding cursor_for_def[of ?ob "?L ! i" False] paginate_cursor Let_def not_False_eq_True f
      sum.case fst_conv ..
  show ?thesis
    unfolding pc using a x1 x0 unfolding len e n(2) by (auto simp del: nth_take take_eq_Nil)
qed

subsection \<open>Forward traversal\<close>

lemma forward_from:
  assumes wk: "well_keyed table q" and l: "1 \<le> limit"
  shows "i < length (listing table q) \<Longrightarrow> length (listing table q) - Suc i < fuel \<Longrightarrow>
     forward_pages fuel (page_of table q limit)
        (Some (cursor_for (effective_order q) (listing table q ! i) True))
       = Some (Inr (drop (Suc i) (listing table q)))"
proof (induction fuel arbitrary: i)
  case 0
  then show ?case by simp
next
  case (Suc fuel)
  let ?L = "listing table q" and ?n = "nat limit" and ?ob = "effective_order q"
  have n: "1 \<le> ?n" using l by simp
  note pf = page_forward[OF wk l Suc.prems(1), folded page_of_def]
  show ?case
  proof (cases "Suc i = length ?L")
    case True
    then show ?thesis using pf by simp
  next
    case ne: False
    show ?thesis
    proof (cases "Suc i + ?n < length ?L")
      case True
      have i': "i + ?n < length ?L" using True by simp
      have fu: "length ?L - Suc (i + ?n) < fuel" using Suc.prems(2) True n by arith
      have ih: "forward_pages fuel (page_of table q limit)
                  (Some (cursor_for ?ob (?L ! (i + ?n)) True))
                = Some (Inr (drop (Suc (i + ?n)) ?L))"
        using Suc.IH[OF i' fu] .
      have cat: "take ?n (drop (Suc i) ?L) @ drop (Suc (i + ?n)) ?L = drop (Suc i) ?L"
        using append_take_drop_id[of ?n "drop (Suc i) ?L"] by (simp add: add.commute)
      show ?thesis using pf ne True ih cat by simp
    next
      case False
      then have "take ?n (drop (Suc i) ?L) = drop (Suc i) ?L" by simp
      then show ?thesis using pf ne False by simp
    qed
  qed
qed

text \<open>
  Claim C2 (amended).  Over a well-keyed table (plain and distinct ordering columns,
  \<^verbatim>\<open>where\<close> statements joined by \<^verbatim>\<open>and\<close>, comparable non-null values and no two
  matching rows equal on all ordering columns) and for a limit of at least one, the
  forward traversal from no cursor ends within \<open>length table + 1\<close> pages, and the
  concatenated items are exactly the matching rows in the order of the query, each
  once.
\<close>

theorem forward_pages_cover_listing:
  assumes wk: "well_keyed table q" and l: "1 \<le> limit"
    and fuel: "length table < fuel"
  shows "forward_pages fuel (page_of table q limit) None
           = Some (Inr (listing table q))
         \<and> distinct (listing table q)
         \<and> mset (listing table q) = mset (filter (matches q) table)"
proof -
  let ?L = "listing table q" and ?n = "nat limit" and ?ob = "effective_order q"
  let ?pg = "page_of table q limit"
  have n: "1 \<le> ?n" using l by simp
  have lenL: "length ?L \<le> length table"
    by (simp add: listing_def length_sort_rows)
  obtain f where f: "fuel = Suc f" using fuel by (cases fuel) auto
  note p0 = page_first[OF well_keyed_facts(1)[OF wk] l, of table, folded page_of_def]
  have "forward_pages (Suc f) ?pg None = Some (Inr ?L)"
  proof (cases "?n < length ?L")
    case True
    have i: "?n - 1 < length ?L" using True by simp
    have fu: "length ?L - Suc (?n - 1) < f" using lenL fuel f True n by arith
    have "forward_pages f ?pg (Some (cursor_for ?ob (?L ! (?n - 1)) True))
            = Some (Inr (drop (Suc (?n - 1)) ?L))"
      using forward_from[OF wk l i fu] .
    moreover have "Suc (?n - 1) = ?n" using n by simp
    ultimately show ?thesis using p0 True by simp
  next
    case False
    then show ?thesis using p0 by simp
  qed
  then show ?thesis
    using well_keyed_facts(5)[OF wk] by (simp add: f listing_def mset_sort_rows)
qed

theorem forward_pages_cover_listing_witness:
  "well_keyed posts_table posts_query \<and> (1::int) \<le> 2 \<and> length posts_table < 4
   \<and> forward_pages 4 (page_of posts_table posts_query 2) None = Some (Inr posts_table)"
proof -
  have wk: "well_keyed posts_table posts_query" by code_simp
  have L: "listing posts_table posts_query = posts_table" by code_simp
  have len: "length posts_table < 4" by (simp add: posts_table_def)
  show ?thesis
    using forward_pages_cover_listing[OF wk _ len, of 2] wk len by (simp add: L)
qed

text \<open>
  Claim C2 as stated fails when rows tie on the ordering: two rows have \<open>t = 10\<close>, the
  first page (limit two) ends with one of them, the second page starts after every
  row with that \<open>t\<close>, and the other one is never returned.
\<close>

theorem ties_omit_row_counterexample:
  "forward_pages 5 (page_of ties_table ties_query 2) None
     = Some (Inr [[(''id'', VNum 1), (''t'', VNum 9)], [(''id'', VNum 2), (''t'', VNum 10)],
                  [(''id'', VNum 4), (''t'', VNum 11)]])
   \<and> listing ties_table ties_query = ties_table
   \<and> [(''id'', VNum 3), (''t'', VNum 10)] \<in> set ties_table"
  by code_simp

subsection \<open>Forward, then backward\<close>

text \<open>
  Claim C5 (amended).  Over a well-keyed table and for a limit of at least one, let
  page N be the page of no cursor or of a cursor made from a row of the listing.  If
  page N has a \<open>nextCursor\<close>, the page of that cursor has a \<open>prevCursor\<close>, and the page
  of this \<open>prevCursor\<close> has the items of page N.
\<close>

theorem forward_then_backward_restores_page:
  assumes wk: "well_keyed table q" and l: "1 \<le> limit"
    and c0: "c0 = None \<or> (\<exists>r\<in>set (listing table q). \<exists>d.
                c0 = Some (cursor_for (effective_order q) r d))"
    and pN: "fst (cursorPaginate (run_query table) q limit c0) = Inr pN"
    and nx: "nextCursor pN = Some c1"
  shows "\<exists>p1 c2 p2.
           fst (cursorPaginate (run_query table) q limit (Some c1)) = Inr p1
         \<and> prevCursor p1 = Some c2
         \<and> fst (cursorPaginate (run_query table) q limit (Some c2)) = Inr p2
         \<and> items p2 = items pN"
proof -
  let ?L = "listing table q" and ?n = "nat limit" and ?ob = "effective_order q"
  let ?pg = "\<lambda>c. fst (cursorPaginate (run_query table) q limit c)"
  have n: "1 \<le> ?n" using l by simp
  consider (none) "c0 = None"
    | (fwd) i where "i < length ?L" "c0 = Some (cursor_for ?ob (?L ! i) True)"
    | (bwd) i where "i < length ?L" "c0 = Some (cursor_for ?ob (?L ! i) False)"
  proof (cases c0)
    case None
    then show ?thesis using none by simp
  next
    case (Some c)
    then obtain r d where r: "r \<in> set ?L" and c: "c0 = Some (cursor_for ?ob r d)"
      using c0 by auto
    from r obtain i where i: "i < length ?L" "?L ! i = r" by (auto simp: in_set_conv_nth)
    show ?thesis
    proof (cases d)
      case True
      then show ?thesis using fwd[of i] i c by simp
    next
      case False
      then show ?thesis using bwd[of i] i c by simp
    qed
  qed
  then show ?thesis
  proof cases
    case none
    note p0 = page_first[OF well_keyed_facts(1)[OF wk] l, of table]
    have big: "?n < length ?L" using pN nx p0 none by (auto split: if_splits)
    have c1: "c1 = cursor_for ?ob (?L ! (?n - 1)) True"
      and it: "items pN = take ?n ?L"
      using pN nx p0 none big by auto
    have i1: "?n - 1 < length ?L" using big by simp
    have s: "Suc (?n - 1) = ?n" using n by simp
    have p1: "?pg (Some c1) = Inr \<lparr>items = take ?n (drop ?n ?L),
        nextCursor = (if ?n + ?n < length ?L
                      then Some (cursor_for ?ob (?L ! (?n - 1 + ?n)) True) else None),
        prevCursor = Some (cursor_for ?ob (?L ! ?n) False)\<rparr>"
      using page_forward[OF wk l i1] big unfolding c1 s by simp
    have p2: "?pg (Some (cursor_for ?ob (?L ! ?n) False))
        = Inr \<lparr>items = drop (?n - ?n) (take ?n ?L),
               nextCursor = Some (cursor_for ?ob (?L ! (?n - 1)) True),
               prevCursor = None\<rparr>"
      using page_backward[OF wk l big] n by simp
    show ?thesis
      using p1 p2 it by simp
  next
    case (fwd i)
    note pf = page_forward[OF wk l fwd(1)]
    have ne: "Suc i \<noteq> length ?L" using pN nx pf fwd(2) by (auto split: if_splits)
    have big: "Suc i + ?n < length ?L" using pN nx pf fwd(2) ne by (auto split: if_splits)
    have c1: "c1 = cursor_for ?ob (?L ! (i + ?n)) True"
      and it: "items pN = take ?n (drop (Suc i) ?L)"
      using pN nx pf fwd(2) ne big by auto
    have i1: "i + ?n < length ?L" using big by simp
    have ne1: "Suc (i + ?n) \<noteq> length ?L" using big by simp
    have p1: "prevCursor (projr (?pg (Some c1))) = Some (cursor_for ?ob (?L ! Suc (i + ?n)) False)"
      and p1': "\<exists>p. ?pg (Some c1) = Inr p"
      using page_forward[OF wk l i1] ne1 unfolding c1 by simp_all
    have j: "Suc (i + ?n) < length ?L" using big by simp
    have dt: "drop (Suc (i + ?n) - ?n) (take (Suc (i + ?n)) ?L) = take ?n (drop (Suc i) ?L)"
      by (simp add: drop_take)
    have p2: "items (projr (?pg (Some (cursor_for ?ob (?L ! Suc (i + ?n)) False)))) = items pN"
      and p2': "\<exists>p. ?pg (Some (cursor_for ?ob (?L ! Suc (i + ?n)) False)) = Inr p"
      using page_backward[OF wk l j] dt it by simp_all
    show ?thesis
      using p1 p1' p2 p2' by (metis sum.sel(2))
  next
    case (bwd i)
    note pb = page_backward[OF wk l bwd(1)]
    have ne: "i \<noteq> 0" using pN nx pb bwd(2) by (auto split: if_splits)
    have c1: "c1 = cursor_for ?ob (?L ! (i - 1)) True"
      using pN nx pb bwd(2) ne by auto
    have i1: "i - 1 < length ?L" using bwd(1) by simp
    have s: "Suc (i - 1) = i" using ne by simp
    have ne1: "Suc (i - 1) \<noteq> length ?L" using bwd(1) s by simp
    have p1: "prevCursor (projr (?pg (Some c1))) = Some (cursor_for ?ob (?L ! i) False)"
      and p1': "\<exists>p. ?pg (Some c1) = Inr p"
      using page_forward[OF wk l i1] ne1 unfolding c1 s by simp_all
    show ?thesis
      using p1 p1' pN bwd(2) by (metis sum.sel(2))
  qed
qed

theorem forward_then_backward_restores_page_witness:
  "well_keyed posts_table posts_query \<and> (1::int) \<le> 2
   \<and> fst (cursorPaginate (run_query posts_table) posts_query 2 None)
       = Inr \<lparr>items = [[(''id'', VNum 5), (''t'', VNum 10)], [(''id'', VNum 4), (''t'', VNum 10)]],
              nextCursor = Some (Base64Json (cursor_json [JNum 10, JNum 4] True)),
              prevCursor = None\<rparr>
   \<and> (\<exists>p1 c2 p2.
         fst (cursorPaginate (run_query posts_table) posts_query 2
                (Some (Base64Json (cursor_json [JNum 10, JNum 4] True)))) = Inr p1
       \<and> prevCursor p1 = Some c2
       \<and> fst (cursorPaginate (run_query posts_table) posts_query 2 (Some c2)) = Inr p2
       \<and> items p2 = [[(''id'', VNum 5), (''t'', VNum 10)], [(''id'', VNum 4), (''t'', VNum 10)]])"
proof -
  have wk: "well_keyed posts_table posts_query" by code_simp
  have pN: "fst (cursorPaginate (run_query posts_table) posts_query 2 None)
       = Inr \<lparr>items = [[(''id'', VNum 5), (''t'', VNum 10)], [(''id'', VNum 4), (''t'', VNum 10)]],
              nextCursor = Some (Base64Json (cursor_json [JNum 10, JNum 4] True)),
              prevCursor = None\<rparr>"
    by code_simp
  show ?thesis
    using forward_then_backward_restores_page[OF wk _ _ pN,
        of "Base64Json (cursor_json [JNum 10, JNum 4] True)"] wk pN
    by simp
qed

text \<open>
  Claim C5 as stated fails when rows tie on the ordering.  The first page (limit two)
  holds the row with \<open>t = 9\<close> and one of the two rows with \<open>t = 10\<close>; the page of its
  \<open>nextCursor\<close> holds the row with \<open>t = 11\<close>; the page fetched backward from there
  holds the two rows with \<open>t = 10\<close>, not the first page.
\<close>

theorem ties_break_symmetry_counterexample:
  "page_of ties_table ties_query 2 None
     = Inr \<lparr>items = [[(''id'', VNum 1), (''t'', VNum 9)], [(''id'', VNum 2), (''t'', VNum 10)]],
            nextCursor = Some (Base64Json (cursor_json [JNum 10] True)),
            prevCursor = None\<rparr>
   \<and> page_of ties_table ties_query 2 (Some (Base64Json (cursor_json [JNum 10] True)))
     = Inr \<lparr>items = [[(''id'', VNum 4), (''t'', VNum 11)]],
            nextCursor = None,
            prevCursor = Some (Base64Json (cursor_json [JNum 11] False))\<rparr>
   \<and> page_of ties_table ties_query 2 (Some (Base64Json (cursor_json [JNum 11] False)))
     = Inr \<lparr>items = [[(''id'', VNum 3), (''t'', VNum 10)], [(''id'', VNum 2), (''t'', VNum 10)]],
            nextCursor = Some (Base64Json (cursor_json [JNum 10] True)),
            prevCursor = Some (Base64Json (cursor_json [JNum 10] False))\<rparr>"
  by code_simp

subsection \<open>Presence of the cursors of a page\<close>

lemma exists_after_before:
  assumes "sorted_wrt (row_less ob) xs" "k < length xs"
  shows "list_ex (row_less ob (xs ! k)) xs = (Suc k < length xs)"
    and "list_ex (\<lambda>r. row_less ob r (xs ! k)) xs = (0 < k)"
proof -
  have "list_ex (row_less ob (xs ! k)) xs = (filter (row_less ob (xs ! k)) xs \<noteq> [])"
    by (simp add: list_ex_iff filter_empty_conv)
  then show "list_ex (row_less ob (xs ! k)) xs = (Suc k < length xs)"
    unfolding filter_after[OF assms] by auto
  have "list_ex (\<lambda>r. row_less ob r (xs ! k)) xs = (filter (\<lambda>r. row_less ob r (xs ! k)) xs \<noteq> [])"
    by (simp add: list_ex_iff filter_empty_conv)
  then show "list_ex (\<lambda>r. row_less ob r (xs ! k)) xs = (0 < k)"
    unfolding filter_before[OF assms] using assms(2) by auto
qed

lemma last_take_min:
  assumes "xs \<noteq> []" "1 \<le> n"
  shows "last (take n xs) = xs ! (min n (length xs) - 1)"
proof (cases "n \<le> length xs")
  case True
  then show ?thesis using last_take_nth[OF assms(2) True] by (simp add: min_absorb1)
next
  case False
  then have "take n xs = xs" "min n (length xs) = length xs" by simp_all
  then show ?thesis using assms(1) by (simp add: last_conv_nth)
qed

text \<open>
  Claim C4 (amended).  Over a well-keyed table, for a limit of at least one and for no
  cursor or a cursor made from a row of the listing, a page is returned; it has at
  most \<open>limit\<close> items; without a cursor it has no \<open>prevCursor\<close>; and when it is not
  empty, it has a \<open>nextCursor\<close> exactly when the listing has a row after its last
  item, and a \<open>prevCursor\<close> exactly when the listing has a row before its first item.
\<close>

theorem page_markers:
  assumes wk: "well_keyed table q" and l: "1 \<le> limit"
    and c0: "c0 = None \<or> (\<exists>r\<in>set (listing table q). \<exists>d.
                c0 = Some (cursor_for (effective_order q) r d))"
  shows "\<exists>p. fst (cursorPaginate (run_query table) q limit c0) = Inr p
           \<and> int (length (items p)) \<le> limit
           \<and> (c0 = None \<longrightarrow> prevCursor p = None)
           \<and> (items p \<noteq> [] \<longrightarrow>
                (nextCursor p \<noteq> None)
                   = list_ex (row_less (effective_order q) (last (items p))) (listing table q)
              \<and> (prevCursor p \<noteq> None)
                   = list_ex (\<lambda>r. row_less (effective_order q) r (hd (items p)))
                       (listing table q))"
proof -
  let ?L = "listing table q" and ?n = "nat limit" and ?ob = "effective_order q"
  let ?pg = "\<lambda>c. fst (cursorPaginate (run_query table) q limit c)"
  have n: "1 \<le> ?n" "int ?n = limit" using l by simp_all
  note srt = well_keyed_facts(6)[OF wk]
  consider (none) "c0 = None"
    | (fwd) i where "i < length ?L" "c0 = Some (cursor_for ?ob (?L ! i) True)"
    | (bwd) i where "i < length ?L" "c0 = Some (cursor_for ?ob (?L ! i) False)"
  proof (cases c0)
    case None
    then show ?thesis using none by simp
  next
    case (Some c)
    then obtain r d where r: "r \<in> set ?L" and c: "c0 = Some (cursor_for ?ob r d)"
      using c0 by auto
    from r obtain i where i: "i < length ?L" "?L ! i = r" by (auto simp: in_set_conv_nth)
    show ?thesis
    proof (cases d)
      case True
      then show ?thesis using fwd[of i] i c by simp
    next
      case False
      then show ?thesis using bwd[of i] i c by simp
    qed
  qed
  then show ?thesis
  proof cases
    case none
    note p0 = page_first[OF well_keyed_facts(1)[OF wk] l, of table]
    let ?its = "take ?n ?L"
    have "length ?its \<le> ?n" by simp
    then have len: "int (length ?its) \<le> limit" using l by linarith
    have mk: "(?n < length ?L) = list_ex (row_less ?ob (last ?its)) ?L
              \<and> \<not> list_ex (\<lambda>r. row_less ?ob r (hd ?its)) ?L" if ne: "?its \<noteq> []"
    proof -
      have Lne: "?L \<noteq> []" using ne by auto
      let ?k = "min ?n (length ?L) - 1"
      have z: "0 < length ?L" using Lne by simp
      have k: "?k < length ?L" using z n(1) by arith
      have la: "last ?its = ?L ! ?k" using last_take_min[OF Lne n(1)] .
      have hd: "hd ?its = ?L ! 0" using ne Lne n(1) by (simp add: hd_conv_nth)
      have a: "(Suc ?k < length ?L) = (?n < length ?L)" using n(1) z by arith
      show ?thesis
        unfolding la hd exists_after_before(1)[OF srt k] exists_after_before(2)[OF srt z]
        using a by simp
    qed
    show ?thesis
      unfolding none p0 using len mk by (auto simp del: take_eq_Nil)
  next
    case (fwd i)
    note pf = page_forward[OF wk l fwd(1)]
    let ?xs = "drop (Suc i) ?L"
    let ?its = "take ?n ?xs"
    have "length ?its \<le> ?n" by simp
    then have len: "int (length ?its) \<le> limit" using l by linarith
    have mk: "(Suc i + ?n < length ?L) = list_ex (row_less ?ob (last ?its)) ?L
              \<and> list_ex (\<lambda>r. row_less ?ob r (hd ?its)) ?L" if ne: "Suc i \<noteq> length ?L"
    proof -
      have xne: "?xs \<noteq> []" using ne fwd(1) by simp
      have lx: "length ?xs = length ?L - Suc i" by simp
      let ?k = "Suc i + (min ?n (length ?xs) - 1)"
      have si: "Suc i < length ?L" using ne fwd(1) by simp
      have k: "?k < length ?L" using si n(1) unfolding lx by arith
      have "last ?its = ?xs ! (min ?n (length ?xs) - 1)" using last_take_min[OF xne n(1)] .
      also have "\<dots> = ?L ! ?k" using fwd(1) by (intro nth_drop) simp
      finally have la: "last ?its = ?L ! ?k" .
      have ine: "?its \<noteq> []" using xne n(1) by auto
      have "hd ?its = ?its ! 0" using ine by (rule hd_conv_nth)
      also have "\<dots> = ?xs ! 0" using ine n(1) by simp
      also have "\<dots> = ?L ! (Suc i + 0)" using fwd(1) by (intro nth_drop) simp
      finally have hd: "hd ?its = ?L ! Suc i" by simp
      have a: "(Suc ?k < length ?L) = (Suc i + ?n < length ?L)"
        using n(1) si unfolding lx by arith
      show ?thesis
        unfolding la hd exists_after_before(1)[OF srt k] exists_after_before(2)[OF srt si]
        using a by simp
    qed
    show ?thesis
      unfolding fwd(2) pf using len mk
      by (auto simp del: take_eq_Nil drop_eq_Nil nth_drop length_drop length_take simp: cursor_for_def)
  next
    case (bwd i)
    note pb = page_backward[OF wk l bwd(1)]
    let ?xs = "take i ?L"
    let ?its = "drop (i - ?n) ?xs"
    have lx: "length ?xs = i" using bwd(1) by simp
    have "length ?its \<le> ?n" using lx by simp
    then have len: "int (length ?its) \<le> limit" using l by linarith
    have mk: "list_ex (row_less ?ob (last ?its)) ?L
              \<and> (?n < i) = list_ex (\<lambda>r. row_less ?ob r (hd ?its)) ?L" if ne: "i \<noteq> 0"
    proof -
      have lt: "i - ?n < i" using ne n(1) by arith
      have "last ?its = last ?xs" using lt lx by simp
      also have "\<dots> = ?L ! (i - 1)" using last_take_nth[of i ?L] ne bwd(1) by simp
      finally have la: "last ?its = ?L ! (i - 1)" .
      have "hd ?its = ?xs ! (i - ?n)" using lt lx by (simp add: hd_drop_conv_nth)
      also have "\<dots> = ?L ! (i - ?n)" using lt by simp
      finally have hd: "hd ?its = ?L ! (i - ?n)" .
      have k1: "i - 1 < length ?L" and k2: "i - ?n < length ?L" using bwd(1) by simp_all
      have a: "Suc (i - 1) < length ?L" using ne bwd(1) by simp
      show ?thesis
        unfolding la hd exists_after_before(1)[OF srt k1] exists_after_before(2)[OF srt k2]
        using a by auto
    qed
    show ?thesis
      unfolding bwd(2) pb using len mk
      by (auto simp del: take_eq_Nil drop_eq_Nil nth_take length_drop length_take simp: cursor_for_def)
  qed
qed

theorem page_markers_witness:
  "well_keyed posts_table posts_query \<and> (1::int) \<le> 2
   \<and> [(''id'', VNum 5), (''t'', VNum 10)] \<in> set (listing posts_table posts_query)
   \<and> (\<exists>p. fst (cursorPaginate (run_query posts_table) posts_query 2
                (Some (cursor_for (effective_order posts_query)
                         [(''id'', VNum 5), (''t'', VNum 10)] True))) = Inr p
            \<and> int (length (items p)) \<le> 2)"
proof -
  have wk: "well_keyed posts_table posts_query" by code_simp
  have r: "[(''id'', VNum 5), (''t'', VNum 10)] \<in> set (listing posts_table posts_query)"
    by code_simp
  have c0: "Some (cursor_for (effective_order posts_query) [(''id'', VNum 5), (''t'', VNum 10)] True)
              = None
            \<or> (\<exists>r\<in>set (listing posts_table posts_query). \<exists>d.
                 Some (cursor_for (effective_order posts_query)
                         [(''id'', VNum 5), (''t'', VNum 10)] True)
                 = Some (cursor_for (effective_order posts_query) r d))"
    using r by blast
  obtain p where "fst (cursorPaginate (run_query posts_table) posts_query 2
                (Some (cursor_for (effective_order posts_query)
                         [(''id'', VNum 5), (''t'', VNum 10)] True))) = Inr p"
      "int (length (items p)) \<le> 2"
    using page_markers[OF wk _ c0, of 2] by auto
  then have "\<exists>p. fst (cursorPaginate (run_query posts_table) posts_query 2
                (Some (cursor_for (effective_order posts_query)
                         [(''id'', VNum 5), (''t'', VNum 10)] True))) = Inr p
            \<and> int (length (items p)) \<le> 2"
    by blast
  moreover have "(1::int) \<le> 2" by simp
  ultimately show ?thesis using wk r by blast
qed

text \<open>
  Claim C4 as stated fails for a cursor whose boundary precedes every row (a stale or
  hand-made cursor): the page starts at the first row of the listing and still
  carries a \<open>prevCursor\<close>.
\<close>

theorem stale_cursor_prev_counterexample:
  "fst (cursorPaginate (run_query ids_table) ids_query 5
          (Some (Base64Json (cursor_json [JNum 0] True))))
     = Inr \<lparr>items = ids_table, nextCursor = None,
            prevCursor = Some (Base64Json (cursor_json [JNum 1] False))\<rparr>
   \<and> listing ids_table ids_query = ids_table"
  by code_simp

subsection \<open>Cursors with fewer values than ordering columns\<close>

lemma assemble_returns:
  assumes "1 \<le> limit"
  shows "\<exists>p. assemble_page cols limit hc cd fetched = Inr p"
proof (cases "fetched = []")
  case True
  then show ?thesis by (simp add: assemble_page_def Let_def)
next
  case ne: False
  show ?thesis
  proof (cases "int (length fetched) \<le> limit")
    case True
    have "rev fetched \<noteq> []" using ne by simp
    then show ?thesis
      using ne True
      by (auto simp: assemble_page_def Let_def first_last_elem genCursor_def split: sum.splits)
  next
    case False
    then have "2 \<le> length fetched" using assms by linarith
    then have "butlast fetched \<noteq> []" by (cases fetched rule: rev_cases) auto
    then have "rev (butlast fetched) \<noteq> []" by simp
    then show ?thesis
      using ne False \<open>butlast fetched \<noteq> []\<close>
      by (auto simp: assemble_page_def Let_def first_last_elem genCursor_def split: sum.splits)
  qed
qed

text \<open>
  Claim C7 (amended).  The paginator has no check of the number of cursor values.  For
  an ordering with plain column names and a cursor with \<open>k\<close> values, \<open>1 \<le> k \<le> n\<close>
  (\<open>n\<close> the number of ordering columns), the call over the reference row source with a
  limit of at least one returns a page, and the filter it adds to the builder is the
  boundary predicate of the first \<open>k\<close> columns: a shorter cursor is silently cut to
  the leading columns.
\<close>

theorem short_cursor_is_truncated:
  assumes plain: "plain_columns (effective_order q)"
    and ne: "vals \<noteq> []" and len: "length vals \<le> length (effective_order q)"
    and l: "1 \<le> limit"
  shows "\<exists>p g q'. cursorPaginate (run_query table) q limit
                     (Some (Base64Json (cursor_json vals ptn))) = (Inr p, q')
           \<and> where_stmts q' = where_stmts q @ [(BAnd, Wrapped g)]
           \<and> (\<forall>r. holds r (Wrapped g)
                    = boundary_pred (take (length vals) (effective_order q)) vals ptn r)"
proof -
  let ?ob = "effective_order q"
  let ?g = "cursor_conditions (convertOrderByToColumns ?ob) vals ptn"
  let ?q' = "fetch_query q (Some ?g) (\<not> ptn) limit"
  have l0: "0 \<le> limit + 1" using l by simp
  have d: "distinct (map column ?ob)"
    and ni: "list_all (\<lambda>c. \<not> is_array_index (column c)) ?ob"
    using plain by (simp_all add: plain_columns_def)
  obtain fetched where f: "run_query table ?q' = Inr fetched"
    using run_fetch_query[OF l0] by blast
  obtain p where p: "assemble_page (convertOrderByToColumns ?ob) limit True
                       (cursor_json vals ptn) fetched = Inr p"
    using assemble_returns[OF l] by blast
  have 1: "cursorPaginate (run_query table) q limit (Some (Base64Json (cursor_json vals ptn)))
             = (Inr p, ?q')"
    by (simp add: paginate_cursor Let_def f p)
  have 2: "where_stmts ?q' = where_stmts q @ [(BAnd, Wrapped ?g)]"
    by (simp add: where_stmts_fetch_query)
  have 3: "holds r (Wrapped ?g) = boundary_pred (take (length vals) ?ob) vals ptn r" for r
    using holds_cursor_conditions[OF ni d ne len] by (simp add: convert_plain[OF d])
  show ?thesis using 1 2 3 by blast
qed

theorem short_cursor_is_truncated_witness:
  "plain_columns (effective_order posts_query) \<and> [JNum 10] \<noteq> []
   \<and> length [JNum 10] \<le> length (effective_order posts_query) \<and> (1::int) \<le> 2
   \<and> (\<exists>p g q'. cursorPaginate (run_query posts_table) posts_query 2
                     (Some (Base64Json (cursor_json [JNum 10] True))) = (Inr p, q')
           \<and> where_stmts q' = where_stmts posts_query @ [(BAnd, Wrapped g)]
           \<and> holds [(''id'', VNum 3), (''t'', VNum 9)] (Wrapped g)
           \<and> boundary_pred [\<lparr>column = ''t'', direction = Desc\<rparr>] [JNum 10] True
                [(''id'', VNum 3), (''t'', VNum 9)])"
proof -
  have plain: "plain_columns (effective_order posts_query)" by code_simp
  have len: "length [JNum 10] \<le> length (effective_order posts_query)" by code_simp
  have tk: "take (length [JNum 10]) (effective_order posts_query)
              = [\<lparr>column = ''t'', direction = Desc\<rparr>]" by code_simp
  have b: "boundary_pred [\<lparr>column = ''t'', direction = Desc\<rparr>] [JNum 10] True
                [(''id'', VNum 3), (''t'', VNum 9)]" by code_simp
  obtain p g q' where
    "cursorPaginate (run_query posts_table) posts_query 2
        (Some (Base64Json (cursor_json [JNum 10] True))) = (Inr p, q')"
    "where_stmts q' = where_stmts posts_query @ [(BAnd, Wrapped g)]"
    "\<forall>r. holds r (Wrapped g)
           = boundary_pred (take (length [JNum 10]) (effective_order posts_query)) [JNum 10] True r"
    using short_cursor_is_truncated[OF plain _ len, of 2 posts_table True] by auto
  then have "\<exists>p g q'. cursorPaginate (run_query posts_table) posts_query 2
                     (Some (Base64Json (cursor_json [JNum 10] True))) = (Inr p, q')
           \<and> where_stmts q' = where_stmts posts_query @ [(BAnd, Wrapped g)]
           \<and> holds [(''id'', VNum 3), (''t'', VNum 9)] (Wrapped g)
           \<and> boundary_pred [\<lparr>column = ''t'', direction = Desc\<rparr>] [JNum 10] True
                [(''id'', VNum 3), (''t'', VNum 9)]"
    using b unfolding tk by blast
  moreover have "[JNum 10] \<noteq> []" "(1::int) \<le> 2" by simp_all
  ultimately show ?thesis using plain len by blast
qed

text \<open>
  Claim C7 as stated fails: a cursor with one value against an ordering of two columns
  raises nothing; the filter is \<open>t < 10\<close> alone and the row \<open>(t = 10, id = 4)\<close> that
  follows the boundary \<open>(10, 5)\<close> is skipped.
\<close>

theorem mismatch_not_raised_counterexample:
  "length [JNum 10] \<noteq> length (extractOrderByClauses posts_query)
   \<and> fst (cursorPaginate (run_query posts_table) posts_query 2
            (Some (Base64Json (cursor_json [JNum 10] True))))
     = Inr \<lparr>items = [[(''id'', VNum 3), (''t'', VNum 9)]], nextCursor = None,
            prevCursor = Some (Base64Json (cursor_json [JNum 9, JNum 3] False))\<rparr>"
  by code_simp

subsection \<open>Limits below one\<close>

lemma length_own_entries: "length (own_entries obj) = length obj"
proof -
  have "length (filter (\<lambda>e. is_array_index (fst e)) obj)
          + length (filter (\<lambda>e. \<not> is_array_index (fst e)) obj) = length obj"
    by (rule sum_length_filter_compl)
  then show ?thesis by (simp add: own_entries_def)
qed

lemma obj_set_nonempty: "obj_set obj k v \<noteq> []"
  by (cases obj) simp_all

lemma foldl_obj_set_nonempty:
  "acc \<noteq> [] \<Longrightarrow>
     foldl (\<lambda>acc clause. obj_set acc (column clause) (direction clause)) acc cs \<noteq> []"
  by (induction cs arbitrary: acc) (simp_all add: obj_set_nonempty)

lemma keys_effective_order: "object_keys (convertOrderByToColumns (effective_order q)) \<noteq> []"
proof -
  obtain c cs where e: "effective_order q = c # cs"
    using effective_order_nonempty[of q] by (cases "effective_order q") auto
  have "convertOrderByToColumns (effective_order q) \<noteq> []"
    unfolding e convertOrderByToColumns_def
    using foldl_obj_set_nonempty[of "[(column c, direction c)]" cs] by simp
  then have "length (object_keys (convertOrderByToColumns (effective_order q))) \<noteq> 0"
    by (simp add: object_keys_def length_own_entries)
  then show ?thesis by auto
qed

text \<open>
  Claim C8 (amended).  The limit is not validated.  Without a cursor, a limit of \<open>0\<close>
  or \<open>-1\<close> is handed on as \<^verbatim>\<open>limit(limit + 1)\<close>: the call returns the empty page when no
  row is fetched, and for limit \<open>0\<close> and a matching row it ends in the \<^verbatim>\<open>TypeError\<close>
  of reading a field of the missing last item.
\<close>

theorem nonpositive_limit_not_rejected:
  assumes "limit = 0 \<or> limit = - 1"
  shows "fst (cursorPaginate (run_query table) q limit None)
           = (if limit = 0 \<and> filter (matches q) table \<noteq> [] then Inl TypeError
              else Inr \<lparr>items = [], nextCursor = None, prevCursor = None\<rparr>)"
proof -
  let ?L = "listing table q"
  let ?cols = "convertOrderByToColumns (effective_order q)"
  have l0: "0 \<le> limit + 1" using assms by auto
  have f: "run_query table (fetch_query q None False limit) = Inr (take (nat (limit + 1)) ?L)"
    using fetched_none[OF l0] .
  have Lne: "(?L = []) = (filter (matches q) table = [])"
    using length_sort_rows[of "effective_order q" "filter (matches q) table"]
    unfolding listing_def by (metis length_0_conv)
  from assms show ?thesis
  proof
    assume z: "limit = 0"
    have f0: "run_query table (fetch_query q None False 0) = Inr (take (Suc 0) ?L)"
      using f z by simp
    show ?thesis
    proof (cases ?L)
      case Nil
      then show ?thesis
        using Lne by (simp add: paginate_none f0 z assemble_page_def Let_def)
    next
      case (Cons r rs)
      have g: "genCursor ?cols None True = Inl TypeError"
        using keys_effective_order[of q] by (simp add: genCursor_def)
      show ?thesis
        using Lne Cons g
        by (simp add: paginate_none f0 z assemble_page_def Let_def last_elem_def)
    qed
  next
    assume m: "limit = - 1"
    have f1: "run_query table (fetch_query q None False (- 1)) = Inr []"
      using f m by simp
    show ?thesis by (simp add: paginate_none f1 m assemble_page_def Let_def)
  qed
qed

theorem nonpositive_limit_not_rejected_witness:
  "((0::int) = 0 \<or> (0::int) = - 1)
   \<and> fst (cursorPaginate (run_query posts_table) posts_query 0 None) = Inl TypeError"
proof -
  have "filter (matches posts_query) posts_table \<noteq> []" by code_simp
  then show ?thesis
    using nonpositive_limit_not_rejected[of 0 posts_table posts_query] by simp
qed

text \<open>Claim C8 as stated fails: limit \<open>0\<close> over an empty table returns a page.\<close>

theorem zero_limit_page_counterexample:
  "fst (cursorPaginate (run_query []) posts_query 0 None)
     = Inr \<lparr>items = [], nextCursor = None, prevCursor = None\<rparr>"
  by code_simp

subsection \<open>The builder after a call\<close>

lemma cursorPaginate_unfold:
  "cursorPaginate fetch q limit cursor =
     (case read_cursor cursor of
        Inl e \<Rightarrow> (Inl e, fst (default_order q))
      | Inr cursorData \<Rightarrow>
          (case (if cursor_truthy cursor \<and> js_truthy cursorData
                 then applyCursorConditions (fst (default_order q))
                        (convertOrderByToColumns (effective_order q)) cursorData
                 else Inr (fst (default_order q))) of
             Inl e \<Rightarrow> (Inl e, fst (default_order q))
           | Inr q2 \<Rightarrow>
               (case fetch (qb_limit (applyOrderBy (clearOrderByStatements q2) (effective_order q)
                              (cursor_truthy cursor \<and> js_truthy cursorData
                                \<and> \<not> prop_truthy cursorData ''point_to_next'')) (limit + 1)) of
                  Inl e \<Rightarrow> (Inl e, qb_limit (applyOrderBy (clearOrderByStatements q2)
                              (effective_order q)
                              (cursor_truthy cursor \<and> js_truthy cursorData
                                \<and> \<not> prop_truthy cursorData ''point_to_next'')) (limit + 1))
                | Inr fetched \<Rightarrow>
                    (assemble_page (convertOrderByToColumns (effective_order q)) limit
                       (cursor_truthy cursor) cursorData fetched,
                     qb_limit (applyOrderBy (clearOrderByStatements q2) (effective_order q)
                              (cursor_truthy cursor \<and> js_truthy cursorData
                                \<and> \<not> prop_truthy cursorData ''point_to_next'')) (limit + 1)))))"
  unfolding cursorPaginate_def effective_order_def Let_def case_prod_beta by (rule refl)

lemma paginate_builder:
  assumes "cursorPaginate fetch q limit cursor = (Inr p, q')"
  shows "\<exists>g rv. q' = fetch_query q g rv limit"
proof -
  obtain j where j: "read_cursor cursor = Inr j"
    using assms by (cases "read_cursor cursor") (auto simp: cursorPaginate_unfold)
  show ?thesis
  proof (cases "cursor_truthy cursor \<and> js_truthy j")
    case False
    then have "snd (cursorPaginate fetch q limit cursor) = fetch_query q None False limit"
      by (auto simp: cursorPaginate_unfold j fetch_query_def split: sum.splits)
    then show ?thesis using assms by auto
  next
    case True
    then obtain q2 where q2: "applyCursorConditions (fst (default_order q))
                      (convertOrderByToColumns (effective_order q)) j = Inr q2"
      using assms
      by (cases "applyCursorConditions (fst (default_order q))
                      (convertOrderByToColumns (effective_order q)) j")
         (auto simp: cursorPaginate_unfold j)
    then obtain g where g: "q2 = qb_where_wrapped (fst (default_order q)) g"
      by (auto simp: applyCursorConditions_def split: option.splits json.splits)
    have "snd (cursorPaginate fetch q limit cursor)
            = fetch_query q (Some g) (\<not> prop_truthy j ''point_to_next'') limit"
      using True q2 g
      by (auto simp: cursorPaginate_unfold j fetch_query_def split: sum.splits)
    then show ?thesis using assms by auto
  qed
qed

lemma order_stmts_fetch_query:
  "filter is_order (statements (fetch_query q g rv limit))
     = map (\<lambda>c. SOrderBasic (column c) (direction c))
         (extractOrderByClauses (fetch_query q g rv limit))"
proof -
  have nil: "filter is_order (filter (\<lambda>s. \<not> is_order s) xs) = []" for xs
    by (induction xs) simp_all
  have ord: "filter is_order (map (\<lambda>c. SOrderBasic (column c) (h c)) ob)
               = map (\<lambda>c. SOrderBasic (column c) (h c)) ob" for h and ob :: "OrderByClause list"
    by (induction ob) simp_all
  show ?thesis
    unfolding extractOrderByClauses_def order_fetch_query
    by (cases g)
       (simp_all add: fetch_query_def qb_limit_def statements_applyOrderBy
          clearOrderByStatements_def qb_where_wrapped_def nil ord flip_clause_def comp_def)
qed

text \<open>
  Claim C9 (amended).  The call changes the caller's builder in place.  Whenever a page
  is returned, the builder is left with the limit \<open>limit + 1\<close>; its \<^verbatim>\<open>where\<close> statements
  are the caller's, followed by at most one more (the cursor filter); its order
  statements are basic ones, for the ordering of the call as it is or with every
  direction inverted, every other order statement being gone.  Apart from the one call of \<open>fetch\<close>
  the function is a computation on its arguments.
\<close>

theorem paginate_mutates_builder:
  assumes "cursorPaginate fetch q limit cursor = (Inr p, q')"
  shows "limit_val q' = Some (limit + 1)
       \<and> take (length (where_stmts q)) (where_stmts q') = where_stmts q
       \<and> length (where_stmts q') \<le> Suc (length (where_stmts q))
       \<and> (extractOrderByClauses q' = effective_order q
            \<or> extractOrderByClauses q' = map flip_clause (effective_order q))
       \<and> filter is_order (statements q')
           = map (\<lambda>c. SOrderBasic (column c) (direction c)) (extractOrderByClauses q')"
proof -
  obtain g rv where q': "q' = fetch_query q g rv limit"
    using paginate_builder[OF assms] by blast
  have "extractOrderByClauses q' = effective_order q
          \<or> extractOrderByClauses q' = map flip_clause (effective_order q)"
    unfolding q' extractOrderByClauses_def order_fetch_query by simp
  moreover have "take (length (where_stmts q)) (where_stmts q') = where_stmts q"
    "length (where_stmts q') \<le> Suc (length (where_stmts q))"
    unfolding q' where_stmts_fetch_query by (cases g; simp)+
  ultimately show ?thesis
    using order_stmts_fetch_query[of q g rv limit] limit_fetch_query[of q g rv limit]
    unfolding q' by simp
qed

theorem paginate_mutates_builder_witness:
  "cursorPaginate (run_query posts_table) posts_query 2 None
     = (Inr \<lparr>items = [[(''id'', VNum 5), (''t'', VNum 10)], [(''id'', VNum 4), (''t'', VNum 10)]],
             nextCursor = Some (Base64Json (cursor_json [JNum 10, JNum 4] True)),
             prevCursor = None\<rparr>,
        posts_query\<lparr>limit_val := Some 3\<rparr>)
   \<and> limit_val (posts_query\<lparr>limit_val := Some 3\<rparr>) = Some (2 + 1)"
proof -
  have e: "cursorPaginate (run_query posts_table) posts_query 2 None
     = (Inr \<lparr>items = [[(''id'', VNum 5), (''t'', VNum 10)], [(''id'', VNum 4), (''t'', VNum 10)]],
             nextCursor = Some (Base64Json (cursor_json [JNum 10, JNum 4] True)),
             prevCursor = None\<rparr>,
        posts_query\<lparr>limit_val := Some 3\<rparr>)"
    by code_simp
  show ?thesis using paginate_mutates_builder[OF e] e by simp
qed

text \<open>
  Claim C9 as stated fails: after a call with a backward cursor the builder holds the
  cursor filter, the inverted ordering and a limit, none of which the caller set.
\<close>

theorem builder_mutated_counterexample:
  "snd (cursorPaginate (run_query posts_table) posts_query 2
          (Some (Base64Json (cursor_json [JNum 9, JNum 3] False))))
     = \<lparr>statements =
          [SWhere BAnd (Wrapped
             [(BAnd, Basic (Some ''t'') OpGt (Some (JNum 9))),
              (BOr, Basic (Some ''t'') OpEq (Some (JNum 9))),
              (BAnd, Wrapped [(BAnd, Basic (Some ''id'') OpGt (Some (JNum 3)))])]),
           SOrderBasic ''t'' Asc, SOrderBasic ''id'' Asc],
        limit_val = Some 3\<rparr>
   \<and> posts_query
     = \<lparr>statements = [SOrderBasic ''t'' Desc, SOrderBasic ''id'' Desc], limit_val = None\<rparr>"
  by code_simp

subsection \<open>The boundary filter of a full cursor\<close>

text \<open>
  For an ordering with plain column names and a cursor with one value per column the
  filter of the paginator is the boundary predicate of the specification.
\<close>

lemma full_cursor_filter:
  assumes "plain_columns spec" "spec \<noteq> []" "length vals = length spec"
  shows "holds r (Wrapped (cursor_conditions (convertOrderByToColumns spec) vals ptn))
           = boundary_pred spec vals ptn r"
proof -
  have d: "distinct (map column spec)"
    and ni: "list_all (\<lambda>c. \<not> is_array_index (column c)) spec"
    using assms(1) by (simp_all add: plain_columns_def)
  have ne: "vals \<noteq> []" using assms(2,3) by auto
  show ?thesis
    using holds_cursor_conditions[OF ni d ne, of r ptn] assms(3)
    by (simp add: convert_plain[OF d])
qed

text \<open>
  Claim C1: the code departs from it when a column name is an array index.  For the
  ordering \<open>rank asc, 2024 asc\<close> the columns object enumerates \<open>2024\<close> first, so the
  filter compares column \<open>2024\<close> with the first cursor value.  The boundary row
  \<open>(rank = 1, 2024 = 9)\<close> is not after itself, yet passes the filter built from its
  values \<open>[1, 9]\<close>; and in a traversal with limit one the cursor of the first page
  leads to an empty page, although the listing has a second row.
\<close>

theorem numeric_column_name_breaks_filter:
  "effective_order year_query
     = [\<lparr>column = ''rank'', direction = Asc\<rparr>, \<lparr>column = ''2024'', direction = Asc\<rparr>]
   \<and> object_keys (convertOrderByToColumns (effective_order year_query)) = [''2024'', ''rank'']
   \<and> boundary_pred (effective_order year_query) [JNum 1, JNum 9] True
         [(''rank'', VNum 1), (''2024'', VNum 9)] = False
   \<and> holds [(''rank'', VNum 1), (''2024'', VNum 9)]
         (Wrapped (cursor_conditions (convertOrderByToColumns (effective_order year_query))
                     [JNum 1, JNum 9] True)) = True
   \<and> listing year_table year_query = year_table
   \<and> page_of year_table year_query 1 None
       = Inr \<lparr>items = [[(''rank'', VNum 1), (''2024'', VNum 9)]],
              nextCursor = Some (Base64Json (cursor_json [JNum 9, JNum 1] True)),
              prevCursor = None\<rparr>
   \<and> page_of year_table year_query 1 (Some (Base64Json (cursor_json [JNum 9, JNum 1] True)))
       = Inr \<lparr>items = [], nextCursor = None, prevCursor = None\<rparr>"
  by code_simp

subsection \<open>Cursor strings that are not cursors\<close>

text \<open>A string that is not JSON ends the call with the \<^verbatim>\<open>SyntaxError\<close> of \<^verbatim>\<open>JSON.parse\<close>,
  whatever the row source: the fetch is not reached.\<close>

lemma not_json_raises: "fst (cursorPaginate fetch q limit (Some NotJson)) = Inl SyntaxError"
  by (simp add: cursorPaginate_unfold read_cursor_def cursor_truthy_def)

text \<open>A JSON value without an array \<^verbatim>\<open>data\<close> that is truthy ends the call with the
  \<^verbatim>\<open>TypeError\<close> of \<^verbatim>\<open>cursor.data.shift()\<close>, whatever the row source.\<close>

lemma no_data_raises:
  assumes "js_truthy j" "\<forall>vals. js_prop j ''data'' \<noteq> Some (JArr vals)"
  shows "fst (cursorPaginate fetch q limit (Some (Base64Json j))) = Inl TypeError"
proof -
  have "applyCursorConditions q1 cols j = Inl TypeError" for q1 cols
    using assms(2) by (auto simp: applyCursorConditions_def split: option.splits json.splits)
  then show ?thesis
    using assms(1) by (simp add: cursorPaginate_unfold read_cursor_def cursor_truthy_def)
qed

text \<open>
  Claim C6: the code departs from it.  The decoded structure is not checked.  A cursor
  that decodes to \<open>{"data":[2]}\<close>, without the flag, is taken for a backward cursor
  and a page is fetched and returned; a cursor that decodes to \<open>null\<close> is taken for no
  cursor and the first rows are returned.
\<close>

theorem malformed_cursor_accepted:
  "page_of ids_table ids_query 5 (Some (Base64Json (JObj [(''data'', JArr [JNum 2])])))
     = Inr \<lparr>items = [[(''id'', VNum 1)]],
            nextCursor = Some (Base64Json (cursor_json [JNum 1] True)),
            prevCursor = None\<rparr>
   \<and> page_of ids_table ids_query 5 (Some (Base64Json JNull))
     = Inr \<lparr>items = ids_table, nextCursor = None, prevCursor = None\<rparr>"
  by code_simp

subsection \<open>The limit is respected for every table and cursor\<close>

text \<open>Over the reference row source a page returned for a limit of at least zero never
  has more than \<open>limit\<close> items, whatever the table, the query and the cursor.\<close>

lemma run_query_length:
  assumes "run_query table q = Inr rows" "limit_val q = Some n"
  shows "int (length rows) \<le> n"
  using assms by (auto simp: run_query_def Let_def split: if_splits)

lemma assemble_length:
  assumes "assemble_page cols limit hc cd fetched = Inr p" "0 \<le> limit"
    and "int (length fetched) \<le> limit + 1"
  shows "int (length (items p)) \<le> limit"
  using assms
  by (auto simp: assemble_page_def Let_def split: if_splits sum.splits)

lemma page_length:
  assumes "0 \<le> limit" "page_of table q limit c = Inr p"
  shows "int (length (items p)) \<le> limit"
proof -
  obtain j where j: "read_cursor c = Inr j"
    using assms(2)
    by (cases "read_cursor c") (auto simp: page_of_def cursorPaginate_unfold)
  obtain q2 where q2: "(if cursor_truthy c \<and> js_truthy j
                 then applyCursorConditions (fst (default_order q))
                        (convertOrderByToColumns (effective_order q)) j
                 else Inr (fst (default_order q))) = Inr q2"
    using assms(2) j
    by (cases "if cursor_truthy c \<and> js_truthy j
                 then applyCursorConditions (fst (default_order q))
                        (convertOrderByToColumns (effective_order q)) j
                 else Inr (fst (default_order q))")
       (auto simp: page_of_def cursorPaginate_unfold)
  have "assemble_page (convertOrderByToColumns (effective_order q)) limit (cursor_truthy c) j
          fetched = Inr p" if "run_query table (qb_limit (applyOrderBy (clearOrderByStatements q2)
            (effective_order q) (cursor_truthy c \<and> js_truthy j
               \<and> \<not> prop_truthy j ''point_to_next'')) (limit + 1)) = Inr fetched" for fetched
    using assms(2) j q2 that by (simp add: page_of_def cursorPaginate_unfold)
  moreover obtain fetched where "run_query table (qb_limit (applyOrderBy (clearOrderByStatements q2)
            (effective_order q) (cursor_truthy c \<and> js_truthy j
               \<and> \<not> prop_truthy j ''point_to_next'')) (limit + 1)) = Inr fetched"
    using assms(2) j q2
    by (cases "run_query table (qb_limit (applyOrderBy (clearOrderByStatements q2)
            (effective_order q) (cursor_truthy c \<and> js_truthy j
               \<and> \<not> prop_truthy j ''point_to_next'')) (limit + 1))")
       (auto simp: page_of_def cursorPaginate_unfold)
  ultimately show ?thesis
    using assemble_length[OF _ assms(1)] run_query_length[of table _ fetched "limit + 1"]
    by (simp add: qb_limit_def)
qed

end
